theory Spec2Isabelle
  imports Complex_Main "HOL-Library.AList" "HOL-Library.Multiset"
begin

section \<open>Two-column layout of a hypergraph (hypernetx/drawing/two\_column.py)\<close>

subsection \<open>Identifiers, hypergraphs and the bipartite graph\<close>

text \<open>
  Vertex identifiers are Python hashables; the source tells hyperedges from nodes with
  \<^verbatim>\<open>isinstance(edge, str)\<close> ("edges are kept as str while nodes are int"), so the
  model keeps the two kinds of identifier the source distinguishes.
\<close>

datatype uid = IntId int | StrId string

fun is_str :: "uid \<Rightarrow> bool" where
  "is_str (StrId s) = True"
| "is_str (IntId n) = False"

text \<open>
  The hypergraph is the external collaborator: \<open>nodes\<close> is the iteration order of
  \<^verbatim>\<open>H.nodes\<close>, \<open>edges\<close> the iteration order of \<^verbatim>\<open>H.edges()\<close>, each hyperedge
  with its \<^verbatim>\<open>uid\<close> and the node identifiers that iterating it yields.
\<close>

record hypergraph =
  nodes :: "uid list"
  edges :: "(uid \<times> uid list) list"

definition edge_uids :: "hypergraph \<Rightarrow> uid list" where
  "edge_uids H = map fst (edges H)"

text \<open>
  A networkx graph: \<open>gnodes\<close> is the node dictionary in insertion order, each vertex with
  its \<^verbatim>\<open>bipartite\<close> attribute; \<open>gedges\<close> are the undirected edges.
\<close>

record graph =
  gnodes :: "(uid \<times> nat) list"
  gedges :: "(uid \<times> uid) list"

definition vertices :: "graph \<Rightarrow> uid list" where
  "vertices G = map fst (gnodes G)"

text \<open>
  \<^verbatim>\<open>Graph.add_nodes_from(vs, bipartite=tag)\<close>: a vertex already present keeps its place
  and has the attribute overwritten, a new one is appended.
\<close>

definition add_nodes_from :: "uid list \<Rightarrow> nat \<Rightarrow> (uid \<times> nat) list \<Rightarrow> (uid \<times> nat) list" where
  "add_nodes_from vs tag al = fold (\<lambda>v. AList.update v tag) vs al"

text \<open>
  Modelled from the spec: \<^verbatim>\<open>Hypergraph.bipartite\<close> is not part of the source file.
  The spec: "nodes partitioned into two disjoint sets, bipartite=0 (hypergraph nodes) and
  bipartite=1 (hyperedges), with an edge between a node and a hyperedge iff the hyperedge
  contains that node". A member of a hyperedge that is not a node of the hypergraph gives
  no edge. The spec leaves the insertion order open; hyperedges are inserted first here.
\<close>

definition bipartite :: "hypergraph \<Rightarrow> graph" where
  "bipartite H =
     \<lparr> gnodes = add_nodes_from (nodes H) 0 (add_nodes_from (edge_uids H) 1 []),
       gedges = concat (map (\<lambda>e. map (\<lambda>v. (v, fst e)) (filter (\<lambda>v. v \<in> set (nodes H)) (snd e)))
                  (edges H)) \<rparr>"

subsection \<open>Connected components\<close>

text \<open>
  Modelled from the spec: \<^verbatim>\<open>networkx.connected_components\<close> is a library routine.
  The spec: "a maximal subset of the bipartite graph's vertices reachable from each other";
  "stacking order must be stable (iteration order of component discovery)".
  Every vertex starts as a class of its own; each edge joins the classes of its two ends,
  the joined class staying at the place of the earlier one. A component is listed in the
  graph's node order.
\<close>

definition touches :: "uid \<Rightarrow> uid \<Rightarrow> uid list \<Rightarrow> bool" where
  "touches a b c = (a \<in> set c \<or> b \<in> set c)"

fun join :: "uid \<Rightarrow> uid \<Rightarrow> uid list list \<Rightarrow> uid list list" where
  "join a b [] = []"
| "join a b (c # cs) =
     (if touches a b c
      then (c @ concat (filter (touches a b) cs)) # filter (\<lambda>d. \<not> touches a b d) cs
      else c # join a b cs)"

definition classes :: "graph \<Rightarrow> uid list list" where
  "classes G = fold (\<lambda>e. join (fst e) (snd e)) (gedges G) (map (\<lambda>v. [v]) (vertices G))"

definition connected_components :: "graph \<Rightarrow> uid list list" where
  "connected_components G = map (\<lambda>c. filter (\<lambda>v. v \<in> set c) (vertices G)) (classes G)"

text \<open>
  \<^verbatim>\<open>G.subgraph(ci)\<close>: the vertices of \<open>ci\<close> that are in the graph, with their attributes,
  and the edges among them. The node view of the subgraph yields the vertices in the order of
  the list \<open>ci\<close>.
\<close>

definition subgraph :: "graph \<Rightarrow> uid list \<Rightarrow> graph" where
  "subgraph G ci =
     \<lparr> gnodes = concat (map (\<lambda>v. case map_of (gnodes G) v of None \<Rightarrow> [] | Some d \<Rightarrow> [(v, d)]) ci),
       gedges = filter (\<lambda>e. fst e \<in> set ci \<and> snd e \<in> set ci) (gedges G) \<rparr>"

subsection \<open>The layout\<close>

datatype error = TypeError | KeyError | OrderingError

text \<open>
  \<^verbatim>\<open>{v: i for i, v in enumerate(xs)}\<close>: a later occurrence of a key overwrites an earlier one.
\<close>

definition enum_dict :: "uid list \<Rightarrow> (uid \<rightharpoonup> int)" where
  "enum_dict xs = fold (\<lambda>iv m. m(snd iv \<mapsto> int (fst iv))) (enumerate 0 xs) Map.empty"

text \<open>
  \<^verbatim>\<open>sorted(xs, key=d.get)\<close>: the key of a vertex missing from the dictionary is
  \<^verbatim>\<open>None\<close>, and comparing \<^verbatim>\<open>None\<close> with anything raises \<^verbatim>\<open>TypeError\<close>. A list of
  two or more items is compared, a shorter one is not. The sort is stable.
\<close>

definition rank_of :: "(uid \<rightharpoonup> int) \<Rightarrow> uid \<Rightarrow> int" where
  "rank_of key v = (case key v of Some r \<Rightarrow> r | None \<Rightarrow> 0)"

definition sorted_py :: "(uid \<rightharpoonup> int) \<Rightarrow> uid list \<Rightarrow> error + uid list" where
  "sorted_py key xs =
     (if 2 \<le> length xs \<and> (\<exists>x \<in> set xs. key x = None) then Inl TypeError
      else Inr (sort_key (rank_of key) xs))"

text \<open>
  Lines 47 to 52: the sort key of a component. The spectral ordering is a library routine
  on floating-point eigenvectors; it is the parameter \<open>so\<close>, which returns an ordering of
  the subgraph's vertices or raises.
\<close>

definition sort_key_of ::
  "(graph \<Rightarrow> error + uid list) \<Rightarrow> (uid \<rightharpoonup> int) option \<Rightarrow> graph \<Rightarrow> error + (uid \<rightharpoonup> int)" where
  "sort_key_of so nodeorder Gi =
     (case nodeorder of
        None \<Rightarrow> (case so Gi of Inl e \<Rightarrow> Inl e | Inr spectral \<Rightarrow> Inr (enum_dict spectral))
      | Some no \<Rightarrow>
          (let edge_names = filter is_str (vertices Gi);
               edgeorder = enum_dict edge_names
           in Inr (no ++ edgeorder)))"

definition tagged :: "graph \<Rightarrow> nat \<Rightarrow> uid list" where
  "tagged Gi j = map fst (filter (\<lambda>vd. snd vd = j) (gnodes Gi))"

text \<open>Lines 54 to 57: the two sorted subsets; the list for \<open>j = 0\<close> is sorted first.\<close>

definition sorted_subsets ::
  "(graph \<Rightarrow> error + uid list) \<Rightarrow> (uid \<rightharpoonup> int) option \<Rightarrow> graph \<Rightarrow> error + (uid list \<times> uid list)" where
  "sorted_subsets so nodeorder Gi =
     (case sort_key_of so nodeorder Gi of
        Inl e \<Rightarrow> Inl e
      | Inr key \<Rightarrow>
          (case sorted_py key (tagged Gi 0) of
             Inl e \<Rightarrow> Inl e
           | Inr ci_vertices \<Rightarrow>
               (case sorted_py key (tagged Gi 1) of
                  Inl e \<Rightarrow> Inl e
                | Inr ci_edges \<Rightarrow> Inr (ci_vertices, ci_edges))))"

record layout_state =
  offset :: rat
  pos :: "uid \<rightharpoonup> rat \<times> rat"

text \<open>
  The closure \<^verbatim>\<open>stack\<close> reads the enclosing \<^verbatim>\<open>offset\<close> and writes the enclosing
  \<^verbatim>\<open>pos\<close>; \<^verbatim>\<open>/\<close> is true division. Coordinates are exact rationals: the rounding
  of Python's floats is not modelled.
\<close>

definition stack_coord :: "nat \<Rightarrow> rat \<Rightarrow> nat \<Rightarrow> nat \<Rightarrow> rat" where
  "stack_coord i off height n = of_nat i + off + (of_nat height - of_nat n) / 2"

definition stack :: "uid list \<Rightarrow> rat \<Rightarrow> nat \<Rightarrow> bool \<Rightarrow> layout_state \<Rightarrow> layout_state" where
  "stack vs x height flip_orientation st =
     fold (\<lambda>iv s.
            s\<lparr>pos := (pos s)(snd iv \<mapsto>
                 (if flip_orientation
                  then (stack_coord (fst iv) (offset s) height (length vs), x)
                  else (x, stack_coord (fst iv) (offset s) height (length vs))))\<rparr>)
          (enumerate 0 vs) st"

definition layout_component ::
  "(graph \<Rightarrow> error + uid list) \<Rightarrow> rat \<Rightarrow> rat \<Rightarrow> bool \<Rightarrow> (uid \<rightharpoonup> int) option \<Rightarrow>
   graph \<Rightarrow> layout_state \<Rightarrow> error + layout_state" where
  "layout_component so spacing width flip_orientation nodeorder Gi st =
     (case sorted_subsets so nodeorder Gi of
        Inl e \<Rightarrow> Inl e
      | Inr (ci_vertices, ci_edges) \<Rightarrow>
          (let height = max (length ci_vertices) (length ci_edges);
               st1 = stack ci_vertices 0 height flip_orientation st;
               st2 = stack ci_edges width height flip_orientation st1
           in Inr (st2\<lparr>offset := offset st2 + (of_nat height + spacing)\<rparr>)))"

fun layout_loop ::
  "(graph \<Rightarrow> error + uid list) \<Rightarrow> rat \<Rightarrow> rat \<Rightarrow> bool \<Rightarrow> (uid \<rightharpoonup> int) option \<Rightarrow>
   graph list \<Rightarrow> layout_state \<Rightarrow> error + layout_state" where
  "layout_loop so spacing width flip_orientation nodeorder [] st = Inr st"
| "layout_loop so spacing width flip_orientation nodeorder (Gi # rest) st =
     (case layout_component so spacing width flip_orientation nodeorder Gi st of
        Inl e \<Rightarrow> Inl e
      | Inr st' \<Rightarrow> layout_loop so spacing width flip_orientation nodeorder rest st')"

text \<open>
  Lines 43 to 45. The order in which the node view of a component's subgraph iterates is
  the library's: networkx takes the hash order of the component set when the component has
  fewer than half of the graph's nodes, and the graph's node order otherwise. It is the
  parameter \<open>view\<close>, which lists a component in the order of its node view.
\<close>

definition component_graphs :: "(graph \<Rightarrow> uid list \<Rightarrow> uid list) \<Rightarrow> hypergraph \<Rightarrow> graph list" where
  "component_graphs view H =
     (let G = bipartite H in map (\<lambda>ci. subgraph G (view G ci)) (connected_components G))"

definition layout_two_column ::
  "(graph \<Rightarrow> error + uid list) \<Rightarrow> (graph \<Rightarrow> uid list \<Rightarrow> uid list) \<Rightarrow> hypergraph \<Rightarrow> rat \<Rightarrow> rat \<Rightarrow>
   bool \<Rightarrow> (uid \<rightharpoonup> int) option \<Rightarrow> error + (uid \<rightharpoonup> rat \<times> rat)" where
  "layout_two_column so view H spacing width flip_orientation nodeorder =
     (case layout_loop so spacing width flip_orientation nodeorder (component_graphs view H)
             \<lparr>offset = 0, pos = Map.empty\<rparr> of
        Inl e \<Rightarrow> Inl e
      | Inr st \<Rightarrow> Inr (pos st))"

subsection \<open>The renderer\<close>

text \<open>
  Python values that travel through the renderer untouched: colours, keyword arguments,
  label texts. \<open>Tab10 i\<close> is the colour \<^verbatim>\<open>plt.cm.tab10(i)\<close>.
\<close>

datatype pyval =
    PNone
  | PStr string
  | PInt int
  | PNum rat
  | Tab10 nat
  | PList "pyval list"
  | PDict "(uid \<times> pyval) list"

type_synonym point = "rat \<times> rat"

type_synonym kwdict = "(string \<times> pyval) list"

text \<open>
  The plotting surface is the list of what has been added to the axes, in call order:
  a line collection (segments, \<^verbatim>\<open>color\<close>, \<^verbatim>\<open>zorder\<close>, further keyword arguments),
  a patch collection (circles as centre and radius, \<^verbatim>\<open>color\<close>), an annotation
  (text, point, \<^verbatim>\<open>ha\<close>, \<^verbatim>\<open>va\<close>), and the three axis settings.
\<close>

datatype artist =
    LineCollection "(point \<times> point) list" pyval int kwdict
  | PatchCollection "(point \<times> rat) list" pyval
  | Annotation pyval point string string
  | SetAspect int
  | AutoscaleView bool bool
  | AxisOff

fun uid_val :: "uid \<Rightarrow> pyval" where
  "uid_val (StrId s) = PStr s"
| "uid_val (IntId n) = PInt n"

text \<open>
  In the renderer the parameter \<^verbatim>\<open>pos\<close> of the source is written \<open>pos_map\<close>.
  \<^verbatim>\<open>d[k]\<close> raises \<^verbatim>\<open>KeyError\<close> on a missing key; \<^verbatim>\<open>d.get(k)\<close> gives \<^verbatim>\<open>None\<close>.
\<close>

definition lookup :: "('k \<rightharpoonup> 'v) \<Rightarrow> 'k \<Rightarrow> error + 'v" where
  "lookup d k = (case d k of None \<Rightarrow> Inl KeyError | Some v \<Rightarrow> Inr v)"

definition dict_get :: "(uid \<times> pyval) list \<Rightarrow> uid \<Rightarrow> pyval" where
  "dict_get d k = (case map_of d k of None \<Rightarrow> PNone | Some v \<Rightarrow> v)"

text \<open>A list comprehension whose element expression may raise: the first failure wins.\<close>

fun collect :: "('a \<Rightarrow> error + 'b) \<Rightarrow> 'a list \<Rightarrow> error + 'b list" where
  "collect f [] = Inr []"
| "collect f (x # xs) =
     (case f x of
        Inl e \<Rightarrow> Inl e
      | Inr y \<Rightarrow> (case collect f xs of Inl e \<Rightarrow> Inl e | Inr ys \<Rightarrow> Inr (y # ys)))"

text \<open>Line 93: \<^verbatim>\<open>[(node, edge.uid) for edge in H.edges() for node in edge]\<close>.\<close>

definition pairs :: "hypergraph \<Rightarrow> (uid \<times> uid) list" where
  "pairs H = concat (map (\<lambda>edge. map (\<lambda>node. (node, fst edge)) (snd edge)) (edges H))"

text \<open>Lines 95 to 98: a dictionary-valued keyword argument becomes a list aligned with the pairs.\<close>

definition expand_kwargs :: "(uid \<times> uid) list \<Rightarrow> kwdict \<Rightarrow> kwdict" where
  "expand_kwargs ps kwargs =
     map (\<lambda>kv. (fst kv,
                (case snd kv of
                   PDict d \<Rightarrow> PList (map (\<lambda>ne. dict_get d (snd ne)) ps)
                 | v \<Rightarrow> v)))
       kwargs"

definition segment :: "(uid \<rightharpoonup> point) \<Rightarrow> uid \<times> uid \<Rightarrow> error + point \<times> point" where
  "segment pos_map ne =
     (case lookup pos_map (fst ne) of
        Inl e \<Rightarrow> Inl e
      | Inr a \<Rightarrow> (case lookup pos_map (snd ne) of Inl e \<Rightarrow> Inl e | Inr b \<Rightarrow> Inr (a, b)))"

text \<open>Lines 107 to 110.\<close>

definition node_colours :: "pyval \<Rightarrow> uid list \<Rightarrow> error + pyval" where
  "node_colours nodecolor ns =
     (case nodecolor of
        PNone \<Rightarrow> Inr (PStr ''red'')
      | PDict d \<Rightarrow>
          (case collect (lookup (map_of d)) ns of Inl e \<Rightarrow> Inl e | Inr cs \<Rightarrow> Inr (PList cs))
      | c \<Rightarrow> Inr c)"

text \<open>
  \<^verbatim>\<open>draw_hyper_edges\<close>. The call
  \<^verbatim>\<open>LineCollection([...], color=edgecolor, zorder=0, **kwargs)\<close> evaluates the segments
  first and then merges the keyword arguments; a key of \<^verbatim>\<open>kwargs\<close> that repeats
  \<^verbatim>\<open>color\<close> or \<^verbatim>\<open>zorder\<close> raises \<^verbatim>\<open>TypeError\<close> (multiple values for a keyword
  argument). The result is what the function returns, or the exception, with the axes as
  they are at that moment.
\<close>

definition draw_hyper_edges ::
  "hypergraph \<Rightarrow> (uid \<rightharpoonup> point) \<Rightarrow> artist list \<Rightarrow> pyval \<Rightarrow> pyval \<Rightarrow> rat \<Rightarrow> kwdict \<Rightarrow>
   (error + artist) \<times> artist list" where
  "draw_hyper_edges H pos_map ax edgecolor nodecolor nodesize kwargs =
     (let ps = pairs H;
          kwargs' = expand_kwargs ps kwargs
      in case collect (segment pos_map) ps of
           Inl e \<Rightarrow> (Inl e, ax)
         | Inr segs \<Rightarrow>
             if ''color'' \<in> set (map fst kwargs') \<or> ''zorder'' \<in> set (map fst kwargs')
             then (Inl TypeError, ax)
             else
               (let lines = LineCollection segs edgecolor 0 kwargs';
                    ax1 = ax @ [lines]
                in case collect (\<lambda>node. map_sum id (\<lambda>c. (c, nodesize)) (lookup pos_map node)) (nodes H) of
                     Inl e \<Rightarrow> (Inl e, ax1)
                   | Inr patches \<Rightarrow>
                       (case node_colours nodecolor (nodes H) of
                          Inl e \<Rightarrow> (Inl e, ax1)
                        | Inr nc \<Rightarrow> (Inr lines, ax1 @ [PatchCollection patches nc]))))"

text \<open>
  Lines 151 to 153 and 191 to 193: one annotation per point; \<open>shift\<close> is the identity for the
  column labels and lowers the point by 0.15 for the row labels.
\<close>

fun annotate_all ::
  "(uid \<rightharpoonup> point) \<Rightarrow> (uid \<rightharpoonup> pyval) \<Rightarrow> (point \<Rightarrow> point) \<Rightarrow> string \<Rightarrow> string \<Rightarrow>
   uid list \<Rightarrow> artist list \<Rightarrow> (error + unit) \<times> artist list" where
  "annotate_all pos_map labels shift ha va [] ax = (Inr (), ax)"
| "annotate_all pos_map labels shift ha va (p # ps) ax =
     (let text = (case labels p of None \<Rightarrow> uid_val p | Some l \<Rightarrow> l)
      in case lookup pos_map p of
           Inl e \<Rightarrow> (Inl e, ax)
         | Inr xy \<Rightarrow> annotate_all pos_map labels shift ha va ps (ax @ [Annotation text (shift xy) ha va]))"

definition draw_hyper_column_labels ::
  "hypergraph \<Rightarrow> (uid \<rightharpoonup> point) \<Rightarrow> (uid \<rightharpoonup> pyval) \<Rightarrow> bool \<Rightarrow> bool \<Rightarrow> artist list \<Rightarrow>
   (error + unit) \<times> artist list" where
  "draw_hyper_column_labels H pos_map labels with_node_labels with_edge_labels ax =
     (case (if with_node_labels
            then annotate_all pos_map labels (\<lambda>xy. xy) ''right'' ''center'' (nodes H) ax
            else (Inr (), ax)) of
        (Inl e, ax1) \<Rightarrow> (Inl e, ax1)
      | (Inr u, ax1) \<Rightarrow>
          (if with_edge_labels
           then annotate_all pos_map labels (\<lambda>xy. xy) ''left'' ''center'' (edge_uids H) ax1
           else (Inr (), ax1)))"

definition draw_hyper_row_labels ::
  "hypergraph \<Rightarrow> (uid \<rightharpoonup> point) \<Rightarrow> (uid \<rightharpoonup> pyval) \<Rightarrow> bool \<Rightarrow> bool \<Rightarrow> artist list \<Rightarrow>
   (error + unit) \<times> artist list" where
  "draw_hyper_row_labels H pos_map labels with_node_labels with_edge_labels ax =
     (case (if with_node_labels
            then annotate_all pos_map labels (\<lambda>xy. (fst xy, snd xy - 15 / 100)) ''center'' ''top'' (nodes H) ax
            else (Inr (), ax)) of
        (Inl e, ax1) \<Rightarrow> (Inl e, ax1)
      | (Inr u, ax1) \<Rightarrow>
          (if with_edge_labels
           then annotate_all pos_map labels (\<lambda>xy. (fst xy, snd xy - 15 / 100)) ''center'' ''bottom''
                  (edge_uids H) ax1
           else (Inr (), ax1)))"

text \<open>
  What \<^verbatim>\<open>draw\<close> is handed by its caller: the hypergraph, the \<^verbatim>\<open>nodeorder\<close> mapping,
  the \<^verbatim>\<open>edge_kwargs\<close> dictionary (or \<^verbatim>\<open>None\<close>) and the axes. They are objects of the
  caller, so a write through an alias is a write to the caller's object.
\<close>

record world =
  H_obj :: hypergraph
  nodeorder_obj :: "(uid \<rightharpoonup> int) option"
  edge_kwargs_obj :: "kwdict option"
  ax_obj :: "artist list"

text \<open>
  The collaborators of \<^verbatim>\<open>draw\<close> that are not in the source file: the spectral ordering
  and the node view order of networkx, and \<^verbatim>\<open>get_frozenset_label\<close> of the drawing
  utilities (identifiers and the count flag to a dictionary of labels).
\<close>

record library =
  spectral_ordering :: "graph \<Rightarrow> error + uid list"
  node_view :: "graph \<Rightarrow> uid list \<Rightarrow> uid list"
  get_frozenset_label :: "uid list \<Rightarrow> bool \<Rightarrow> (uid \<rightharpoonup> pyval)"

text \<open>
  Line 243, \<^verbatim>\<open>edge_kwargs = edge_kwargs or {}\<close>: a non-empty dictionary is truthy and the
  local name is an alias of the caller's object; \<^verbatim>\<open>None\<close> and the empty dictionary are
  falsy and the local name is a fresh dictionary.
\<close>

datatype dict_ref = CallerDict | FreshDict kwdict

definition edge_kwargs_or_fresh :: "world \<Rightarrow> dict_ref" where
  "edge_kwargs_or_fresh w =
     (case edge_kwargs_obj w of
        None \<Rightarrow> FreshDict []
      | Some d \<Rightarrow> if d = [] then FreshDict [] else CallerDict)"

definition deref :: "world \<Rightarrow> dict_ref \<Rightarrow> kwdict" where
  "deref w r =
     (case r of
        FreshDict d \<Rightarrow> d
      | CallerDict \<Rightarrow> (case edge_kwargs_obj w of None \<Rightarrow> [] | Some d \<Rightarrow> d))"

text \<open>\<^verbatim>\<open>edge_kwargs[key] = v\<close> through the reference.\<close>

definition setitem :: "dict_ref \<Rightarrow> string \<Rightarrow> pyval \<Rightarrow> world \<Rightarrow> dict_ref \<times> world" where
  "setitem r key v w =
     (case r of
        FreshDict d \<Rightarrow> (FreshDict (AList.update key v d), w)
      | CallerDict \<Rightarrow>
          (CallerDict, w\<lparr>edge_kwargs_obj := map_option (AList.update key v) (edge_kwargs_obj w)\<rparr>))"

text \<open>Lines 257 to 259: \<^verbatim>\<open>{e.uid: plt.cm.tab10(i % 10) for i, e in enumerate(H.edges())}\<close>.\<close>

definition colour_cycle :: "hypergraph \<Rightarrow> (uid \<times> pyval) list" where
  "colour_cycle H =
     fold (\<lambda>ie d. AList.update (snd ie) (Tab10 (fst ie mod 10)) d) (enumerate 0 (edge_uids H)) []"

text \<open>
  The names of the parameters of \<^verbatim>\<open>draw_hyper_edges\<close>: the call on line 261 unpacks
  \<^verbatim>\<open>**edge_kwargs\<close> next to them, and a key that repeats one raises \<^verbatim>\<open>TypeError\<close>.
\<close>

definition draw_hyper_edges_params :: "string list" where
  "draw_hyper_edges_params = [''H'', ''pos'', ''ax'', ''edgecolor'', ''nodecolor'', ''nodesize'']"

text \<open>Line 247: the layout call of \<^verbatim>\<open>draw\<close>; \<^verbatim>\<open>spacing\<close> is not passed and is 0.\<close>

definition draw_layout :: "library \<Rightarrow> rat \<Rightarrow> bool \<Rightarrow> world \<Rightarrow> error + (uid \<rightharpoonup> point)" where
  "draw_layout lib column_spacing flip_orientation w =
     layout_two_column (spectral_ordering lib) (node_view lib) (H_obj w) 0 column_spacing
       flip_orientation (nodeorder_obj w)"

text \<open>Lines 249 to 274, with the position map in hand.\<close>

definition draw_with ::
  "library \<Rightarrow> bool \<Rightarrow> bool \<Rightarrow> bool \<Rightarrow> bool \<Rightarrow> bool \<Rightarrow> bool \<Rightarrow> pyval \<Rightarrow> pyval \<Rightarrow> rat \<Rightarrow>
   (uid \<rightharpoonup> point) \<Rightarrow> world \<Rightarrow> (error + unit) \<times> world" where
  "draw_with lib with_node_labels with_edge_labels with_node_counts with_edge_counts with_color
     flip_orientation edgecolor nodecolor nodesize pos_map w =
     (let H = H_obj w;
          V = nodes H;
          E = edge_uids H;
          labels = get_frozenset_label lib V with_node_counts
                     ++ get_frozenset_label lib E with_edge_counts;
          edge_kwargs = edge_kwargs_or_fresh w;
          (edge_kwargs, w1) =
             (if with_color then setitem edge_kwargs ''color'' (PDict (colour_cycle H)) w
              else (edge_kwargs, w));
          kwargs = deref w1 edge_kwargs
      in if \<exists>k \<in> set (map fst kwargs). k \<in> set draw_hyper_edges_params
         then (Inl TypeError, w1)
         else
           (case draw_hyper_edges H pos_map (ax_obj w1) edgecolor nodecolor nodesize kwargs of
              (Inl e, ax1) \<Rightarrow> (Inl e, w1\<lparr>ax_obj := ax1\<rparr>)
            | (Inr lines, ax1) \<Rightarrow>
                (case (if flip_orientation
                       then draw_hyper_row_labels H pos_map labels with_node_labels with_edge_labels ax1
                       else draw_hyper_column_labels H pos_map labels with_node_labels with_edge_labels ax1) of
                   (Inl e, ax2) \<Rightarrow> (Inl e, w1\<lparr>ax_obj := ax2\<rparr>)
                 | (Inr u, ax2) \<Rightarrow>
                     (Inr (), w1\<lparr>ax_obj := ax2 @ [SetAspect 1, AutoscaleView True True, AxisOff]\<rparr>))))"

definition draw ::
  "library \<Rightarrow> bool \<Rightarrow> bool \<Rightarrow> bool \<Rightarrow> bool \<Rightarrow> bool \<Rightarrow> rat \<Rightarrow> bool \<Rightarrow> pyval \<Rightarrow> pyval \<Rightarrow> rat \<Rightarrow>
   world \<Rightarrow> (error + unit) \<times> world" where
  "draw lib with_node_labels with_edge_labels with_node_counts with_edge_counts with_color
     column_spacing flip_orientation edgecolor nodecolor nodesize w =
     (case draw_layout lib column_spacing flip_orientation w of
        Inl e \<Rightarrow> (Inl e, w)
      | Inr pos_map \<Rightarrow>
          draw_with lib with_node_labels with_edge_labels with_node_counts with_edge_counts
            with_color flip_orientation edgecolor nodecolor nodesize pos_map w)"

subsection \<open>Notions used to state the properties\<close>

text \<open>
  The point of an item (lines 38 to 41): \<open>x\<close> is the column, \<open>c\<close> the coordinate on the
  stacking axis.
\<close>

definition place :: "bool \<Rightarrow> rat \<Rightarrow> rat \<Rightarrow> rat \<times> rat" where
  "place flip_orientation x c = (if flip_orientation then (c, x) else (x, c))"

text \<open>Line 59 on the unsorted subsets: the height of a component.\<close>

definition comp_height :: "graph \<Rightarrow> nat" where
  "comp_height Gi = max (length (tagged Gi 0)) (length (tagged Gi 1))"

text \<open>The vertices of a component subgraph, nodes first.\<close>

definition comp_vertices :: "graph \<Rightarrow> uid list" where
  "comp_vertices Gi = tagged Gi 0 @ tagged Gi 1"

text \<open>The sum of \<open>height + spacing\<close> over the first \<open>k\<close> components.\<close>

definition running_offset :: "rat \<Rightarrow> graph list \<Rightarrow> nat \<Rightarrow> rat" where
  "running_offset spacing gs k = sum_list (map (\<lambda>Gi. of_nat (comp_height Gi) + spacing) (take k gs))"

text \<open>The coordinate of a point on the stacking axis.\<close>

definition stacking :: "bool \<Rightarrow> rat \<times> rat \<Rightarrow> rat" where
  "stacking flip_orientation p = (if flip_orientation then fst p else snd p)"

text \<open>A position map with the two coordinates of every point swapped.\<close>

definition transpose_pos :: "(uid \<rightharpoonup> rat \<times> rat) \<Rightarrow> (uid \<rightharpoonup> rat \<times> rat)" where
  "transpose_pos p = (\<lambda>v. map_option prod.swap (p v))"

text \<open>Lines 34 and 35.\<close>

definition init_state :: layout_state where
  "init_state = \<lparr>offset = 0, pos = Map.empty\<rparr>"

text \<open>The state of the flipped run that goes with a state of the run without the flag.\<close>

definition flipped :: "layout_state \<Rightarrow> layout_state" where
  "flipped st = st\<lparr>pos := transpose_pos (pos st)\<rparr>"


text \<open>
  What a node view does: it yields every vertex of the component, each once, in some order.
\<close>

definition view_permutes :: "(graph \<Rightarrow> uid list \<Rightarrow> uid list) \<Rightarrow> graph \<Rightarrow> bool" where
  "view_permutes view G \<longleftrightarrow>
     (\<forall>ci \<in> set (connected_components G). distinct (view G ci) \<and> set (view G ci) = set ci)"

text \<open>The edges of a graph, read in both directions.\<close>

definition adjacent :: "graph \<Rightarrow> (uid \<times> uid) set" where
  "adjacent G = {(a, b). (a, b) \<in> set (gedges G) \<or> (b, a) \<in> set (gedges G)}"

text \<open>Two vertices lie in one class of a list of classes.\<close>

definition same_component :: "uid list list \<Rightarrow> uid \<Rightarrow> uid \<Rightarrow> bool" where
  "same_component cs u v = (\<exists>c \<in> set cs. u \<in> set c \<and> v \<in> set c)"

text \<open>A set of edges, read in both directions.\<close>

definition sym_edges :: "(uid \<times> uid) set \<Rightarrow> (uid \<times> uid) set" where
  "sym_edges R = R \<union> R\<inverse>"

text \<open>
  What the joining of classes maintains: the classes partition the vertices, and two vertices
  share a class exactly when the edges joined so far connect them.
\<close>

definition classes_inv :: "uid set \<Rightarrow> uid list list \<Rightarrow> (uid \<times> uid) set \<Rightarrow> bool" where
  "classes_inv V cs R \<longleftrightarrow>
     distinct (concat cs) \<and> set (concat cs) = V \<and> R \<subseteq> V \<times> V
     \<and> (\<forall>u v. same_component cs u v \<longleftrightarrow> u \<in> V \<and> v \<in> V \<and> (u, v) \<in> (sym_edges R)\<^sup>*)"

subsection \<open>Concrete inputs\<close>

text \<open>
  An ordering routine that returns the vertices in the order of the node view, and two node
  views: one in the graph's node order, one in the reverse of it.
\<close>

definition identity_ordering :: "graph \<Rightarrow> error + uid list" where
  "identity_ordering Gi = Inr (vertices Gi)"

definition graph_order :: "graph \<Rightarrow> uid list \<Rightarrow> uid list" where
  "graph_order G ci = ci"


definition two_singletons :: hypergraph where
  "two_singletons =
     \<lparr>nodes = [IntId 1, IntId 2],
      edges = [(StrId ''e1'', [IntId 1]), (StrId ''e2'', [IntId 2])]\<rparr>"

definition one_edge :: hypergraph where
  "one_edge = \<lparr>nodes = [IntId 1, IntId 2], edges = [(StrId ''e1'', [IntId 1, IntId 2])]\<rparr>"



definition plain_library :: library where
  "plain_library =
     \<lparr>spectral_ordering = identity_ordering,
      node_view = graph_order,
      get_frozenset_label = (\<lambda>S count. map_of (map (\<lambda>v. (v, uid_val v)) S))\<rparr>"

definition one_edge_pos :: "uid \<rightharpoonup> point" where
  "one_edge_pos = [IntId 1 \<mapsto> (0, 0), IntId 2 \<mapsto> (0, 1), StrId ''e1'' \<mapsto> (1, 1 / 2)]"

definition styled_world :: world where
  "styled_world =
     \<lparr>H_obj = one_edge, nodeorder_obj = None,
      edge_kwargs_obj = Some [(''linewidth'', PNum 2)], ax_obj = []\<rparr>"

definition two_singletons_world :: world where
  "two_singletons_world =
     \<lparr>H_obj = two_singletons, nodeorder_obj = None, edge_kwargs_obj = None, ax_obj = []\<rparr>"


section \<open>Properties\<close>

subsection \<open>The bipartite graph and its components\<close>

lemma add_nodes_from_keys:
  "set (map fst (add_nodes_from vs t al)) = set vs \<union> set (map fst al)"
  unfolding add_nodes_from_def
  by (induction vs arbitrary: al) (auto simp: dom_update)

lemma add_nodes_from_distinct:
  "distinct (map fst al) \<Longrightarrow> distinct (map fst (add_nodes_from vs t al))"
  unfolding add_nodes_from_def
  by (induction vs arbitrary: al) (auto simp: distinct_update)

lemma add_nodes_from_tags:
  "\<forall>vd \<in> set al. snd vd \<le> 1 \<Longrightarrow> t \<le> 1 \<Longrightarrow> \<forall>vd \<in> set (add_nodes_from vs t al). snd vd \<le> 1"
  unfolding add_nodes_from_def
proof (induction vs arbitrary: al)
  case Nil then show ?case by simp
next
  case (Cons v vs)
  have "\<forall>vd \<in> set (AList.update v t al). snd vd \<le> 1"
    using Cons.prems by (induction al) auto
  then show ?case using Cons by simp
qed

lemma vertices_bipartite:
  "set (vertices (bipartite H)) = set (nodes H) \<union> set (edge_uids H)"
  using add_nodes_from_keys [of "nodes H" 0 "add_nodes_from (edge_uids H) 1 []"]
    add_nodes_from_keys [of "edge_uids H" 1 "[]"]
  by (simp add: vertices_def bipartite_def)

lemma distinct_vertices_bipartite: "distinct (vertices (bipartite H))"
  by (simp add: vertices_def bipartite_def add_nodes_from_distinct)

lemma tags_bipartite: "\<forall>vd \<in> set (gnodes (bipartite H)). snd vd \<le> 1"
proof -
  have "\<forall>vd \<in> set (add_nodes_from (edge_uids H) 1 []). snd vd \<le> 1"
    by (rule add_nodes_from_tags) simp_all
  then have "\<forall>vd \<in> set (add_nodes_from (nodes H) 0 (add_nodes_from (edge_uids H) 1 [])). snd vd \<le> 1"
    by (rule add_nodes_from_tags) simp
  then show ?thesis by (simp add: bipartite_def)
qed

lemma mset_concat_join: "mset (concat (join a b cs)) = mset (concat cs)"
proof (induction cs)
  case Nil then show ?case by simp
next
  case (Cons c cs)
  have "mset (concat (filter (touches a b) cs)) + mset (concat (filter (\<lambda>d. \<not> touches a b d) cs))
        = mset (concat cs)"
    by (induction cs) auto
  then show ?case using Cons by (auto simp: ac_simps)
qed

lemma mset_concat_classes: "mset (concat (classes G)) = mset (vertices G)"
proof -
  have "mset (concat (fold (\<lambda>e. join (fst e) (snd e)) es cs)) = mset (concat cs)" for es cs
    by (induction es arbitrary: cs) (simp_all add: mset_concat_join)
  moreover have "concat (map (\<lambda>v. [v]) vs) = vs" for vs :: "uid list"
    by (induction vs) auto
  ultimately show ?thesis by (simp add: classes_def)
qed

lemma regroup_distinct:
  "distinct (concat cs) \<Longrightarrow> distinct vs \<Longrightarrow>
   distinct (concat (map (\<lambda>c. filter (\<lambda>v. v \<in> set c) vs) cs))"
  by (induction cs) auto

lemma regroup_set:
  "set (concat cs) = set vs \<Longrightarrow>
   set (concat (map (\<lambda>c. filter (\<lambda>v. v \<in> set c) vs) cs)) = set vs"
  by auto

lemma distinct_concat_components:
  assumes "distinct (vertices G)"
  shows "distinct (concat (connected_components G))"
proof -
  have "distinct (concat (classes G))"
    using assms mset_concat_classes [of G] by (metis distinct_count_atmost_1 set_mset_mset count_mset)
  then show ?thesis unfolding connected_components_def using assms by (rule regroup_distinct)
qed

lemma set_concat_components:
  "set (concat (connected_components G)) = set (vertices G)"
proof -
  have "set (concat (classes G)) = set (vertices G)"
    using mset_concat_classes [of G] by (metis set_mset_mset)
  then show ?thesis unfolding connected_components_def by (rule regroup_set)
qed


subsection \<open>The components are the classes of mutual reachability\<close>

lemma same_component_sym: "same_component cs u v \<Longrightarrow> same_component cs v u"
  by (auto simp: same_component_def)

lemma same_component_refl: "u \<in> set (concat cs) \<Longrightarrow> same_component cs u u"
  by (auto simp: same_component_def)

lemma same_component_in:
  "same_component cs u v \<Longrightarrow> u \<in> set (concat cs) \<and> v \<in> set (concat cs)"
  by (auto simp: same_component_def)

lemma class_unique:
  "distinct (concat cs) \<Longrightarrow> c1 \<in> set cs \<Longrightarrow> c2 \<in> set cs \<Longrightarrow> w \<in> set c1 \<Longrightarrow> w \<in> set c2
   \<Longrightarrow> c1 = c2"
  by (induction cs) auto

lemma same_component_trans:
  "distinct (concat cs) \<Longrightarrow> same_component cs u w \<Longrightarrow> same_component cs w v
   \<Longrightarrow> same_component cs u v"
  unfolding same_component_def by (metis class_unique)

lemma join_keeps:
  "same_component cs u v \<Longrightarrow> same_component (join a b cs) u v"
proof (induction cs)
  case Nil then show ?case by (simp add: same_component_def)
next
  case (Cons c cs)
  show ?case
  proof (cases "touches a b c")
    case True
    from Cons.prems obtain d where d: "d \<in> set (c # cs)" "u \<in> set d" "v \<in> set d"
      by (auto simp: same_component_def)
    show ?thesis
    proof (cases "d = c \<or> touches a b d")
      case True
      with d \<open>touches a b c\<close> show ?thesis by (auto simp: same_component_def)
    next
      case False
      with d \<open>touches a b c\<close> show ?thesis by (auto simp: same_component_def)
    qed
  next
    case False
    with Cons show ?thesis by (auto simp: same_component_def)
  qed
qed

lemma join_links:
  "a \<in> set (concat cs) \<Longrightarrow> b \<in> set (concat cs) \<Longrightarrow> same_component (join a b cs) a b"
proof (induction cs)
  case Nil then show ?case by simp
next
  case (Cons c cs)
  show ?case
  proof (cases "touches a b c")
    case True
    from Cons.prems obtain ca cb where
      "ca \<in> set (c # cs)" "a \<in> set ca" "cb \<in> set (c # cs)" "b \<in> set cb" by auto
    then have "a \<in> set (c @ concat (filter (touches a b) cs))"
      "b \<in> set (c @ concat (filter (touches a b) cs))"
      by (auto simp: touches_def)
    with True show ?thesis by (simp add: same_component_def)
  next
    case False
    with Cons.prems have "a \<in> set (concat cs)" "b \<in> set (concat cs)"
      by (auto simp: touches_def)
    from Cons.IH [OF this] False show ?thesis by (auto simp: same_component_def)
  qed
qed

lemma join_only:
  "same_component (join a b cs) u v \<Longrightarrow>
   same_component cs u v
   \<or> ((same_component cs u a \<or> same_component cs u b) \<and> (same_component cs v a \<or> same_component cs v b))"
proof (induction cs)
  case Nil then show ?case by simp
next
  case (Cons c cs)
  show ?case
  proof (cases "touches a b c")
    case True
    have touched: "same_component (c # cs) x a \<or> same_component (c # cs) x b"
      if "x \<in> set (c @ concat (filter (touches a b) cs))" for x
    proof -
      from that obtain d where "d \<in> set (c # cs)" "touches a b d" "x \<in> set d"
        using True by auto
      then show ?thesis unfolding same_component_def touches_def by blast
    qed
    from Cons.prems True
    consider "u \<in> set (c @ concat (filter (touches a b) cs))"
        "v \<in> set (c @ concat (filter (touches a b) cs))"
      | d where "d \<in> set cs" "u \<in> set d" "v \<in> set d"
      by (auto simp: same_component_def)
    then show ?thesis
    proof cases
      case 1
      with touched show ?thesis by blast
    next
      case 2
      then show ?thesis by (auto simp: same_component_def)
    qed
  next
    case False
    from Cons.prems False
    consider "u \<in> set c" "v \<in> set c" | "same_component (join a b cs) u v"
      by (auto simp: same_component_def)
    then show ?thesis
    proof cases
      case 1 then show ?thesis by (auto simp: same_component_def)
    next
      case 2
      from Cons.IH [OF this] show ?thesis by (auto simp: same_component_def)
    qed
  qed
qed

lemma sym_rtrancl: "(u, v) \<in> (sym_edges R)\<^sup>* \<Longrightarrow> (v, u) \<in> (sym_edges R)\<^sup>*"
proof (induction rule: rtrancl_induct)
  case base show ?case by simp
next
  case (step y z)
  then have "(z, y) \<in> sym_edges R" by (auto simp: sym_edges_def)
  with step.IH show ?case by (meson converse_rtrancl_into_rtrancl)
qed

lemma classes_inv_join:
  assumes inv: "classes_inv V cs R" and ab: "a \<in> V" "b \<in> V"
  shows "classes_inv V (join a b cs) (insert (a, b) R)"
proof -
  let ?cs = "join a b cs" and ?R = "insert (a, b) R"
  from inv have d: "distinct (concat cs)" and V: "set (concat cs) = V" and RV: "R \<subseteq> V \<times> V"
    and eq: "\<And>u v. same_component cs u v \<longleftrightarrow> u \<in> V \<and> v \<in> V \<and> (u, v) \<in> (sym_edges R)\<^sup>*"
    by (auto simp: classes_inv_def)
  have d': "distinct (concat ?cs)" using d mset_concat_join [of a b cs]
    by (metis mset_eq_imp_distinct_iff)
  have V': "set (concat ?cs) = V" using V mset_concat_join [of a b cs] by (metis set_mset_mset)
  have RV': "?R \<subseteq> V \<times> V" using RV ab by auto
  have mono: "(sym_edges R)\<^sup>* \<subseteq> (sym_edges ?R)\<^sup>*"
    by (rule rtrancl_mono) (auto simp: sym_edges_def)
  have ab': "(a, b) \<in> (sym_edges ?R)\<^sup>*" "(b, a) \<in> (sym_edges ?R)\<^sup>*"
    by (auto simp: sym_edges_def)
  have to_ab: "(x, a) \<in> (sym_edges ?R)\<^sup>* \<and> (x, b) \<in> (sym_edges ?R)\<^sup>*"
    if "same_component cs x a \<or> same_component cs x b" for x
  proof -
    from that eq mono have "(x, a) \<in> (sym_edges ?R)\<^sup>* \<or> (x, b) \<in> (sym_edges ?R)\<^sup>*" by blast
    with ab' show ?thesis by (meson rtrancl_trans)
  qed
  have "same_component ?cs u v \<longleftrightarrow> u \<in> V \<and> v \<in> V \<and> (u, v) \<in> (sym_edges ?R)\<^sup>*" for u v
  proof
    assume s: "same_component ?cs u v"
    then have uv: "u \<in> V" "v \<in> V" using same_component_in [OF s] V' by auto
    from join_only [OF s] show "u \<in> V \<and> v \<in> V \<and> (u, v) \<in> (sym_edges ?R)\<^sup>*"
    proof
      assume "same_component cs u v"
      with eq mono uv show ?thesis by blast
    next
      assume "(same_component cs u a \<or> same_component cs u b)
            \<and> (same_component cs v a \<or> same_component cs v b)"
      then have "(u, a) \<in> (sym_edges ?R)\<^sup>*" "(v, a) \<in> (sym_edges ?R)\<^sup>*"
        using to_ab by blast+
      then have "(u, v) \<in> (sym_edges ?R)\<^sup>*" by (meson sym_rtrancl rtrancl_trans)
      with uv show ?thesis by blast
    qed
  next
    assume "u \<in> V \<and> v \<in> V \<and> (u, v) \<in> (sym_edges ?R)\<^sup>*"
    then have u: "u \<in> V" and p: "(u, v) \<in> (sym_edges ?R)\<^sup>*" by auto
    from p show "same_component ?cs u v"
    proof (induction rule: rtrancl_induct)
      case base
      show ?case using u V' by (simp add: same_component_refl)
    next
      case (step w z)
      have "a \<in> set (concat cs)" "b \<in> set (concat cs)" using ab V by simp_all
      then have link: "same_component ?cs a b" by (rule join_links)
      from step.hyps(2) consider "(w, z) \<in> sym_edges R" | "w = a" "z = b" | "w = b" "z = a"
        by (auto simp: sym_edges_def)
      then have "same_component ?cs w z"
      proof cases
        case 1
        then have "w \<in> V" "z \<in> V" using RV by (auto simp: sym_edges_def)
        with 1 eq have "same_component cs w z" by blast
        then show ?thesis by (rule join_keeps)
      next
        case 2 with link show ?thesis by simp
      next
        case 3 with link show ?thesis by (simp add: same_component_sym)
      qed
      with step.IH show ?case by (rule same_component_trans [OF d'])
    qed
  qed
  with d' V' RV' show ?thesis by (simp add: classes_inv_def)
qed

lemma classes_inv_fold:
  "classes_inv V cs R \<Longrightarrow> \<forall>e \<in> set es. fst e \<in> V \<and> snd e \<in> V \<Longrightarrow>
   classes_inv V (fold (\<lambda>e. join (fst e) (snd e)) es cs) (R \<union> set es)"
proof (induction es arbitrary: cs R)
  case Nil then show ?case by simp
next
  case (Cons e es)
  from Cons.prems have "classes_inv V (join (fst e) (snd e) cs) (insert (fst e, snd e) R)"
    by (intro classes_inv_join) simp_all
  from Cons.IH [OF this] Cons.prems(2) show ?case by simp
qed

lemma classes_inv_init:
  assumes "distinct vs"
  shows "classes_inv (set vs) (map (\<lambda>v. [v]) vs) {}"
proof -
  have c: "concat (map (\<lambda>v. [v]) vs) = vs" by (induction vs) auto
  have "same_component (map (\<lambda>v. [v]) vs) u v \<longleftrightarrow> u \<in> set vs \<and> v \<in> set vs \<and> u = v" for u v
    by (auto simp: same_component_def)
  then show ?thesis using assms by (simp add: classes_inv_def c sym_edges_def)
qed

lemma same_component_regroup:
  assumes "set (concat cs) \<subseteq> set vs"
  shows "same_component (map (\<lambda>c. filter (\<lambda>v. v \<in> set c) vs) cs) u v \<longleftrightarrow> same_component cs u v"
  using assms by (auto simp: same_component_def)

text \<open>The components are the classes of mutual reachability.\<close>

lemma connected_components_reachability:
  assumes "distinct (vertices G)"
    and "\<forall>e \<in> set (gedges G). fst e \<in> set (vertices G) \<and> snd e \<in> set (vertices G)"
  shows "same_component (connected_components G) u v
         \<longleftrightarrow> u \<in> set (vertices G) \<and> v \<in> set (vertices G) \<and> (u, v) \<in> (adjacent G)\<^sup>*"
proof -
  from classes_inv_fold [OF classes_inv_init [OF assms(1)] assms(2)]
  have inv: "classes_inv (set (vertices G)) (classes G) (set (gedges G))"
    by (simp add: classes_def)
  have adj: "sym_edges (set (gedges G)) = adjacent G"
    by (auto simp: sym_edges_def adjacent_def)
  have "set (concat (classes G)) \<subseteq> set (vertices G)" using inv by (simp add: classes_inv_def)
  from same_component_regroup [OF this]
  have "same_component (connected_components G) u v \<longleftrightarrow> same_component (classes G) u v"
    by (simp add: connected_components_def)
  with inv adj show ?thesis by (simp add: classes_inv_def)
qed

lemma bipartite_closed:
  "\<forall>e \<in> set (gedges (bipartite H)).
     fst e \<in> set (vertices (bipartite H)) \<and> snd e \<in> set (vertices (bipartite H))"
  unfolding vertices_bipartite by (auto simp: bipartite_def edge_uids_def)

lemma bipartite_adjacent:
  "adjacent (bipartite H)
   = {(a, b). (\<exists>members. (b, members) \<in> set (edges H) \<and> a \<in> set members \<and> a \<in> set (nodes H))
            \<or> (\<exists>members. (a, members) \<in> set (edges H) \<and> b \<in> set members \<and> b \<in> set (nodes H))}"
proof -
  have "(a, b) \<in> set (gedges (bipartite H))
        \<longleftrightarrow> (\<exists>members. (b, members) \<in> set (edges H) \<and> a \<in> set members \<and> a \<in> set (nodes H))"
    for a b
    by (auto simp: bipartite_def) force
  then show ?thesis by (auto simp: adjacent_def)
qed


subsection \<open>Stacking one component\<close>

lemma fold_pos_offset:
  "offset (fold (\<lambda>iv s. s\<lparr>pos := (pos s)(snd iv \<mapsto> g (fst iv) (offset s))\<rparr>) xs st) = offset st"
  by (induction xs arbitrary: st) auto

lemma fold_pos_other:
  "v \<notin> snd ` set xs \<Longrightarrow>
   pos (fold (\<lambda>iv s. s\<lparr>pos := (pos s)(snd iv \<mapsto> g (fst iv) (offset s))\<rparr>) xs st) v = pos st v"
  by (induction xs arbitrary: st) auto

lemma fold_pos_dom:
  "dom (pos (fold (\<lambda>iv s. s\<lparr>pos := (pos s)(snd iv \<mapsto> g (fst iv) (offset s))\<rparr>) xs st))
   = dom (pos st) \<union> snd ` set xs"
  by (induction xs arbitrary: st) auto

lemma fold_pos_nth:
  "distinct (map snd xs) \<Longrightarrow> k < length xs \<Longrightarrow>
   pos (fold (\<lambda>iv s. s\<lparr>pos := (pos s)(snd iv \<mapsto> g (fst iv) (offset s))\<rparr>) xs st) (snd (xs ! k))
   = Some (g (fst (xs ! k)) (offset st))"
proof (induction xs arbitrary: st k)
  case Nil then show ?case by simp
next
  case (Cons x xs)
  let ?F = "\<lambda>iv s. s\<lparr>pos := (pos s)(snd iv \<mapsto> g (fst iv) (offset s))\<rparr>"
  have step: "fold ?F (x # xs) st = fold ?F xs (?F x st)" by (simp only: fold_simps comp_apply)
  have off: "offset (?F x st) = offset st" by simp
  show ?case
  proof (cases k)
    case 0
    have "snd x \<notin> snd ` set xs" using Cons.prems(1) by auto
    from fold_pos_other [OF this, of g "?F x st"]
    have "pos (fold ?F xs (?F x st)) (snd x) = pos (?F x st) (snd x)" .
    also have "\<dots> = Some (g (fst x) (offset st))" by simp
    finally show ?thesis unfolding step 0 nth_Cons_0 .
  next
    case (Suc j)
    have "distinct (map snd xs)" "j < length xs" using Cons.prems Suc by auto
    from Cons.IH [OF this, of "?F x st"]
    show ?thesis unfolding step Suc nth_Cons_Suc off .
  qed
qed

lemma stack_fold:
  "stack vs x height f st =
   fold (\<lambda>iv s. s\<lparr>pos := (pos s)(snd iv \<mapsto>
          (\<lambda>i off. place f x (stack_coord i off height (length vs))) (fst iv) (offset s))\<rparr>)
     (enumerate 0 vs) st"
  by (simp add: stack_def place_def)

lemma stack_offset: "offset (stack vs x height f st) = offset st"
  unfolding stack_fold by (rule fold_pos_offset)

lemma stack_other: "v \<notin> set vs \<Longrightarrow> pos (stack vs x height f st) v = pos st v"
  unfolding stack_fold by (rule fold_pos_other) (simp flip: set_map)

lemma stack_dom: "dom (pos (stack vs x height f st)) = dom (pos st) \<union> set vs"
  using fold_pos_dom [of "\<lambda>i off. place f x (stack_coord i off height (length vs))" "enumerate 0 vs" st]
  by (simp add: stack_fold flip: set_map)

lemma stack_nth:
  assumes "distinct vs" "i < length vs"
  shows "pos (stack vs x height f st) (vs ! i)
         = Some (place f x (stack_coord i (offset st) height (length vs)))"
proof -
  have "distinct (map snd (enumerate 0 vs))" "i < length (enumerate 0 vs)"
    using assms by simp_all
  from fold_pos_nth [OF this, of "\<lambda>i off. place f x (stack_coord i off height (length vs))" st]
  show ?thesis using assms by (simp add: stack_fold nth_enumerate_eq)
qed

lemma sorted_py_mset: "sorted_py key xs = Inr ys \<Longrightarrow> mset ys = mset xs"
  by (auto simp: sorted_py_def split: if_splits)

lemma sorted_subsets_mset:
  "sorted_subsets so no Gi = Inr (vs, es) \<Longrightarrow>
   mset vs = mset (tagged Gi 0) \<and> mset es = mset (tagged Gi 1)"
  by (auto simp: sorted_subsets_def split: sum.splits dest: sorted_py_mset)

lemma sorted_subsets_facts:
  assumes "sorted_subsets so no Gi = Inr (vs, es)"
  shows "length vs = length (tagged Gi 0)" "length es = length (tagged Gi 1)"
    "set vs = set (tagged Gi 0)" "set es = set (tagged Gi 1)"
    "max (length vs) (length es) = comp_height Gi"
    "set vs \<union> set es = set (comp_vertices Gi)"
    "distinct (comp_vertices Gi) \<Longrightarrow> distinct vs \<and> distinct es \<and> set vs \<inter> set es = {}"
proof -
  from sorted_subsets_mset [OF assms]
  have m: "mset vs = mset (tagged Gi 0)" "mset es = mset (tagged Gi 1)" by simp_all
  show "length vs = length (tagged Gi 0)" "length es = length (tagged Gi 1)"
    using m by (metis size_mset)+
  then show "max (length vs) (length es) = comp_height Gi" by (simp add: comp_height_def)
  show s: "set vs = set (tagged Gi 0)" "set es = set (tagged Gi 1)"
    using m by (metis set_mset_mset)+
  then show "set vs \<union> set es = set (comp_vertices Gi)" by (simp add: comp_vertices_def)
  show "distinct vs \<and> distinct es \<and> set vs \<inter> set es = {}" if "distinct (comp_vertices Gi)"
    using that s m by (auto simp: comp_vertices_def dest: mset_eq_imp_distinct_iff)
qed

lemma layout_component_Inr:
  assumes "layout_component so spacing width f no Gi st = Inr st'"
  obtains vs es where "sorted_subsets so no Gi = Inr (vs, es)"
    "st' = (stack es width (comp_height Gi) f (stack vs 0 (comp_height Gi) f st))
             \<lparr>offset := offset st + (of_nat (comp_height Gi) + spacing)\<rparr>"
proof -
  from assms obtain vs es where s: "sorted_subsets so no Gi = Inr (vs, es)"
    by (auto simp: layout_component_def split: sum.splits)
  with assms have "st' = (stack es width (comp_height Gi) f (stack vs 0 (comp_height Gi) f st))
             \<lparr>offset := offset st + (of_nat (comp_height Gi) + spacing)\<rparr>"
    by (simp add: layout_component_def Let_def sorted_subsets_facts(5) stack_offset)
  with s that show thesis by blast
qed

lemma layout_component_offset:
  "layout_component so spacing width f no Gi st = Inr st' \<Longrightarrow>
   offset st' = offset st + (of_nat (comp_height Gi) + spacing)"
  by (erule layout_component_Inr) simp

lemma layout_component_dom:
  "layout_component so spacing width f no Gi st = Inr st' \<Longrightarrow>
   dom (pos st') = dom (pos st) \<union> set (comp_vertices Gi)"
  by (erule layout_component_Inr) (auto simp: stack_dom dest: sorted_subsets_facts(6))

lemma layout_component_other:
  "layout_component so spacing width f no Gi st = Inr st' \<Longrightarrow> v \<notin> set (comp_vertices Gi) \<Longrightarrow>
   pos st' v = pos st v"
proof (erule layout_component_Inr)
  fix vs es
  assume a: "v \<notin> set (comp_vertices Gi)" "sorted_subsets so no Gi = Inr (vs, es)"
    and st': "st' = (stack es width (comp_height Gi) f (stack vs 0 (comp_height Gi) f st))
             \<lparr>offset := offset st + (of_nat (comp_height Gi) + spacing)\<rparr>"
  from sorted_subsets_facts(6) [OF a(2)] a(1) have "v \<notin> set vs" "v \<notin> set es" by auto
  then show "pos st' v = pos st v" by (simp add: st' stack_other)
qed

lemma layout_component_nodes:
  assumes "layout_component so spacing width f no Gi st = Inr st'"
    and "sorted_subsets so no Gi = Inr (vs, es)" and "distinct (comp_vertices Gi)"
    and "i < length vs"
  shows "pos st' (vs ! i) = Some (place f 0 (stack_coord i (offset st) (comp_height Gi) (length vs)))"
proof -
  have "vs ! i \<in> set vs" using assms(4) by simp
  with sorted_subsets_facts(7) [OF assms(2,3)]
  have d: "distinct vs" "vs ! i \<notin> set es" by auto
  from assms(1) show ?thesis
  proof (rule layout_component_Inr)
    fix vs' es'
    assume "sorted_subsets so no Gi = Inr (vs', es')"
      and st': "st' = (stack es' width (comp_height Gi) f (stack vs' 0 (comp_height Gi) f st))
             \<lparr>offset := offset st + (of_nat (comp_height Gi) + spacing)\<rparr>"
    with assms(2) have "vs' = vs" "es' = es" by simp_all
    with st' d assms(4) show ?thesis by (simp add: stack_other stack_nth)
  qed
qed

lemma layout_component_edges:
  assumes "layout_component so spacing width f no Gi st = Inr st'"
    and "sorted_subsets so no Gi = Inr (vs, es)" and "distinct (comp_vertices Gi)"
    and "i < length es"
  shows "pos st' (es ! i)
         = Some (place f width (stack_coord i (offset st) (comp_height Gi) (length es)))"
proof -
  from sorted_subsets_facts(7) [OF assms(2,3)]
  have d: "distinct es" by auto
  from assms(1) show ?thesis
  proof (rule layout_component_Inr)
    fix vs' es'
    assume "sorted_subsets so no Gi = Inr (vs', es')"
      and st': "st' = (stack es' width (comp_height Gi) f (stack vs' 0 (comp_height Gi) f st))
             \<lparr>offset := offset st + (of_nat (comp_height Gi) + spacing)\<rparr>"
    with assms(2) have "vs' = vs" "es' = es" by simp_all
    with st' d assms(4) show ?thesis by (simp add: stack_offset stack_nth)
  qed
qed


subsection \<open>The loop over the components\<close>

text \<open>
  The lemmas on the loop hold for any list of component subgraphs whose vertex sets are
  pairwise disjoint: they do not depend on the order in which the library yields the
  components or the vertices of one component.
\<close>

lemma layout_loop_append:
  "layout_loop so spacing width f no (xs @ ys) st =
     (case layout_loop so spacing width f no xs st of
        Inl e \<Rightarrow> Inl e
      | Inr st1 \<Rightarrow> layout_loop so spacing width f no ys st1)"
  by (induction xs arbitrary: st) (auto split: sum.splits)

lemma layout_loop_offset:
  "layout_loop so spacing width f no gs st = Inr st' \<Longrightarrow>
   offset st' = offset st + running_offset spacing gs (length gs)"
proof (induction gs arbitrary: st)
  case Nil then show ?case by (simp add: running_offset_def)
next
  case (Cons Gi gs)
  then obtain st1 where 1: "layout_component so spacing width f no Gi st = Inr st1"
    and 2: "layout_loop so spacing width f no gs st1 = Inr st'"
    by (auto split: sum.splits)
  from Cons.IH [OF 2] layout_component_offset [OF 1]
  show ?case by (simp add: running_offset_def)
qed

lemma layout_loop_dom:
  "layout_loop so spacing width f no gs st = Inr st' \<Longrightarrow>
   dom (pos st') = dom (pos st) \<union> set (concat (map comp_vertices gs))"
proof (induction gs arbitrary: st)
  case Nil then show ?case by simp
next
  case (Cons Gi gs)
  then obtain st1 where 1: "layout_component so spacing width f no Gi st = Inr st1"
    and 2: "layout_loop so spacing width f no gs st1 = Inr st'"
    by (auto split: sum.splits)
  from Cons.IH [OF 2] layout_component_dom [OF 1]
  show ?case by auto
qed

lemma layout_loop_other:
  "layout_loop so spacing width f no gs st = Inr st' \<Longrightarrow>
   v \<notin> set (concat (map comp_vertices gs)) \<Longrightarrow> pos st' v = pos st v"
proof (induction gs arbitrary: st)
  case Nil then show ?case by simp
next
  case (Cons Gi gs)
  then obtain st1 where 1: "layout_component so spacing width f no Gi st = Inr st1"
    and 2: "layout_loop so spacing width f no gs st1 = Inr st'"
    by (auto split: sum.splits)
  from Cons.prems(2) have "v \<notin> set (comp_vertices Gi)" "v \<notin> set (concat (map comp_vertices gs))"
    by auto
  with Cons.IH [OF 2] layout_component_other [OF 1] show ?case by simp
qed

lemma layout_loop_split:
  assumes "layout_loop so spacing width f no gs st = Inr st'" and "k < length gs"
  obtains st_k st_k1 where
    "layout_loop so spacing width f no (take k gs) st = Inr st_k"
    "layout_component so spacing width f no (gs ! k) st_k = Inr st_k1"
    "layout_loop so spacing width f no (take (Suc k) gs) st = Inr st_k1"
    "layout_loop so spacing width f no (drop (Suc k) gs) st_k1 = Inr st'"
proof -
  have gs: "gs = take k gs @ (gs ! k # drop (Suc k) gs)"
    using assms(2) by (simp add: id_take_nth_drop [symmetric])
  from assms(1) obtain st_k where a: "layout_loop so spacing width f no (take k gs) st = Inr st_k"
    and b: "layout_loop so spacing width f no (gs ! k # drop (Suc k) gs) st_k = Inr st'"
    by (subst (asm) gs, subst (asm) layout_loop_append) (auto split: sum.splits)
  from b obtain st_k1 where c: "layout_component so spacing width f no (gs ! k) st_k = Inr st_k1"
    and d: "layout_loop so spacing width f no (drop (Suc k) gs) st_k1 = Inr st'"
    by (auto split: sum.splits)
  have "take (Suc k) gs = take k gs @ [gs ! k]"
    using assms(2) by (simp add: take_Suc_conv_app_nth)
  then have "layout_loop so spacing width f no (take (Suc k) gs) st = Inr st_k1"
    using a c by (simp add: layout_loop_append)
  with a c d that show thesis by blast
qed

lemma layout_loop_sorted:
  assumes "layout_loop so spacing width f no gs st = Inr st'" and "k < length gs"
  shows "\<exists>vs es. sorted_subsets so no (gs ! k) = Inr (vs, es)"
proof -
  from assms obtain st_k st_k1 where
    "layout_component so spacing width f no (gs ! k) st_k = Inr st_k1"
    by (rule layout_loop_split)
  then show ?thesis by (rule layout_component_Inr) blast
qed

lemma distinct_concat_nth:
  assumes "distinct (concat xss)" and "k < length xss"
  shows "distinct (xss ! k)" "set (xss ! k) \<inter> set (concat (drop (Suc k) xss)) = {}"
    "set (xss ! k) \<inter> set (concat (take k xss)) = {}"
proof -
  have "xss = take k xss @ (xss ! k # drop (Suc k) xss)"
    using assms(2) by (simp add: id_take_nth_drop [symmetric])
  then have "distinct (concat (take k xss) @ xss ! k @ concat (drop (Suc k) xss))"
    using assms(1) by (metis concat.simps(2) concat_append)
  then show "distinct (xss ! k)" "set (xss ! k) \<inter> set (concat (drop (Suc k) xss)) = {}"
    "set (xss ! k) \<inter> set (concat (take k xss)) = {}"
    by auto
qed

lemma layout_loop_positions:
  assumes run: "layout_loop so spacing width f no gs st = Inr st'"
    and dist: "distinct (concat (map comp_vertices gs))"
    and k: "k < length gs"
    and sub: "sorted_subsets so no (gs ! k) = Inr (vs, es)"
    and pre: "layout_loop so spacing width f no (take k gs) st = Inr st_k"
  shows "i < length vs \<Longrightarrow>
           pos st' (vs ! i)
           = Some (place f 0 (stack_coord i (offset st_k) (comp_height (gs ! k)) (length vs)))"
    and "i < length es \<Longrightarrow>
           pos st' (es ! i)
           = Some (place f width (stack_coord i (offset st_k) (comp_height (gs ! k)) (length es)))"
proof -
  from run k obtain s_k s_k1 where
    a: "layout_loop so spacing width f no (take k gs) st = Inr s_k"
    and c: "layout_component so spacing width f no (gs ! k) s_k = Inr s_k1"
    and d: "layout_loop so spacing width f no (drop (Suc k) gs) s_k1 = Inr st'"
    by (rule layout_loop_split)
  from a pre have [simp]: "s_k = st_k" by simp
  have k': "k < length (map comp_vertices gs)" using k by simp
  from distinct_concat_nth(1,2) [OF dist k']
  have dk: "distinct (comp_vertices (gs ! k))"
    and disj: "set (comp_vertices (gs ! k)) \<inter> set (concat (map comp_vertices (drop (Suc k) gs))) = {}"
    using k by (simp_all add: drop_map)
  have in_k: "set vs \<union> set es = set (comp_vertices (gs ! k))"
    by (rule sorted_subsets_facts(6) [OF sub])
  show "pos st' (vs ! i)
           = Some (place f 0 (stack_coord i (offset st_k) (comp_height (gs ! k)) (length vs)))"
    if i: "i < length vs"
  proof -
    have "vs ! i \<in> set (comp_vertices (gs ! k))" using in_k i nth_mem [of i vs] by blast
    with disj have "vs ! i \<notin> set (concat (map comp_vertices (drop (Suc k) gs)))" by blast
    from layout_loop_other [OF d this] layout_component_nodes [OF c sub dk i]
    show ?thesis by simp
  qed
  show "pos st' (es ! i)
           = Some (place f width (stack_coord i (offset st_k) (comp_height (gs ! k)) (length es)))"
    if i: "i < length es"
  proof -
    have "es ! i \<in> set (comp_vertices (gs ! k))" using in_k i nth_mem [of i es] by blast
    with disj have "es ! i \<notin> set (concat (map comp_vertices (drop (Suc k) gs)))" by blast
    from layout_loop_other [OF d this] layout_component_edges [OF c sub dk i]
    show ?thesis by simp
  qed
qed


subsection \<open>The components of a hypergraph\<close>

lemma vertices_subgraph:
  "vertices (subgraph G ci) = filter (\<lambda>v. v \<in> set (vertices G)) ci"
proof -
  have "map fst (concat (map (\<lambda>v. case map_of al v of None \<Rightarrow> [] | Some d \<Rightarrow> [(v, d)]) ci))
        = filter (\<lambda>v. v \<in> set (map fst al)) ci" for al :: "(uid \<times> nat) list"
  proof (induction ci)
    case Nil show ?case by simp
  next
    case (Cons v ci)
    show ?case
    proof (cases "map_of al v")
      case None
      then have "v \<notin> set (map fst al)" by (simp add: map_of_eq_None_iff)
      with None Cons show ?thesis by simp
    next
      case (Some d)
      then have "v \<in> set (map fst al)" by (metis map_of_eq_None_iff option.distinct(1) set_map)
      with Some Cons show ?thesis by simp
    qed
  qed
  then show ?thesis by (simp add: subgraph_def vertices_def)
qed

lemma gnodes_subgraph: "set (gnodes (subgraph G ci)) \<subseteq> set (gnodes G)"
proof
  fix vd assume "vd \<in> set (gnodes (subgraph G ci))"
  then obtain v d where "vd = (v, d)" "map_of (gnodes G) v = Some d"
    by (auto simp: subgraph_def split: option.splits)
  then show "vd \<in> set (gnodes G)" by (simp add: map_of_SomeD)
qed

lemma mset_comp_vertices:
  assumes "\<forall>vd \<in> set (gnodes Gi). snd vd \<le> 1"
  shows "mset (comp_vertices Gi) = mset (vertices Gi)"
proof -
  define gn where "gn = gnodes Gi"
  have t: "\<forall>vd \<in> set gn. snd vd = 0 \<or> snd vd = 1" using assms by (auto simp: gn_def)
  have "mset (filter (\<lambda>vd. snd vd = 0) gn) + mset (filter (\<lambda>vd. snd vd = 1) gn) = mset gn"
    using t by (induction gn) auto
  then have "mset (map fst (filter (\<lambda>vd. snd vd = 0) gn) @ map fst (filter (\<lambda>vd. snd vd = 1) gn))
             = mset (map fst gn)"
    by (metis map_append mset_append mset_map)
  then show ?thesis by (simp only: comp_vertices_def tagged_def vertices_def gn_def)
qed

lemma component_subset:
  "c \<in> set (connected_components G) \<Longrightarrow> set c \<subseteq> set (vertices G)"
  by (auto simp: connected_components_def)

lemma component_distinct:
  "distinct (vertices G) \<Longrightarrow> c \<in> set (connected_components G) \<Longrightarrow> distinct c"
  by (auto simp: connected_components_def)

lemma mset_concat_map_cong:
  "(\<And>x. x \<in> set xs \<Longrightarrow> mset (f x) = mset (g x)) \<Longrightarrow>
   mset (concat (map f xs)) = mset (concat (map g xs))"
  by (induction xs) auto

lemma length_component_graphs:
  "length (component_graphs view H) = length (connected_components (bipartite H))"
  by (simp add: component_graphs_def Let_def)

lemma nth_component_graphs:
  "k < length (connected_components (bipartite H)) \<Longrightarrow>
   component_graphs view H ! k
   = subgraph (bipartite H) (view (bipartite H) (connected_components (bipartite H) ! k))"
  by (simp add: component_graphs_def Let_def)


lemma vertices_component_graph:
  assumes "view_permutes view (bipartite H)" "c \<in> set (connected_components (bipartite H))"
  shows "vertices (subgraph (bipartite H) (view (bipartite H) c)) = view (bipartite H) c"
proof -
  from assms have "set (view (bipartite H) c) = set c" by (simp add: view_permutes_def)
  with component_subset [OF assms(2)]
  have "\<forall>v \<in> set (view (bipartite H) c). v \<in> set (vertices (bipartite H))" by blast
  then show ?thesis by (simp add: vertices_subgraph)
qed

lemma mset_comp_vertices_component:
  assumes "view_permutes view (bipartite H)" "c \<in> set (connected_components (bipartite H))"
  shows "mset (comp_vertices (subgraph (bipartite H) (view (bipartite H) c))) = mset c"
proof -
  let ?Gi = "subgraph (bipartite H) (view (bipartite H) c)"
  have "\<forall>vd \<in> set (gnodes ?Gi). snd vd \<le> 1"
    using tags_bipartite [of H] gnodes_subgraph [of "bipartite H"] by blast
  then have "mset (comp_vertices ?Gi) = mset (view (bipartite H) c)"
    by (simp add: mset_comp_vertices vertices_component_graph [OF assms])
  moreover have "distinct (view (bipartite H) c)" "set (view (bipartite H) c) = set c"
    using assms by (simp_all add: view_permutes_def)
  moreover have "distinct c"
    using component_distinct [OF distinct_vertices_bipartite assms(2)] .
  ultimately show ?thesis by (simp add: set_eq_iff_mset_eq_distinct)
qed

lemma mset_component_graphs:
  assumes "view_permutes view (bipartite H)"
  shows "mset (concat (map comp_vertices (component_graphs view H)))
         = mset (vertices (bipartite H))"
proof -
  have "mset (concat (map comp_vertices (component_graphs view H)))
        = mset (concat (map (\<lambda>c. c) (connected_components (bipartite H))))"
    unfolding component_graphs_def Let_def map_map comp_def
    by (rule mset_concat_map_cong) (rule mset_comp_vertices_component [OF assms])
  also have "\<dots> = mset (vertices (bipartite H))"
    using distinct_concat_components [OF distinct_vertices_bipartite, of H]
      set_concat_components [of "bipartite H"] distinct_vertices_bipartite [of H]
    by (simp add: set_eq_iff_mset_eq_distinct [symmetric])
  finally show ?thesis .
qed

lemma distinct_component_graphs:
  "view_permutes view (bipartite H) \<Longrightarrow>
   distinct (concat (map comp_vertices (component_graphs view H)))"
  using mset_component_graphs [of view H] distinct_vertices_bipartite [of H]
  by (metis mset_eq_imp_distinct_iff)

lemma set_component_graphs:
  "view_permutes view (bipartite H) \<Longrightarrow>
   set (concat (map comp_vertices (component_graphs view H))) = set (nodes H) \<union> set (edge_uids H)"
  using mset_component_graphs [of view H] vertices_bipartite [of H]
  by (metis set_mset_mset)

lemma layout_two_column_Inr:
  assumes "layout_two_column so view H spacing width f no = Inr p"
  obtains st where "layout_loop so spacing width f no (component_graphs view H) init_state = Inr st"
    "p = pos st"
  using assms by (auto simp: layout_two_column_def init_state_def split: sum.splits)

text \<open>With the view in the graph's node order a component subgraph lists the component as it is.\<close>

lemma vertices_graph_order:
  "c \<in> set (connected_components (bipartite H)) \<Longrightarrow>
   vertices (subgraph (bipartite H) (graph_order (bipartite H) c)) = c"
  using component_subset [of c "bipartite H"]
  by (simp add: vertices_subgraph graph_order_def filter_id_conv subset_iff)

text \<open>
  In that order the subgraph of a component keeps the graph's own listing of the component's
  vertices, attributes included.
\<close>

lemma regather:
  "distinct (map fst al) \<Longrightarrow> set bl \<subseteq> set al \<Longrightarrow>
   concat (map (\<lambda>v. case map_of al v of None \<Rightarrow> [] | Some d \<Rightarrow> [(v, d)]) (map fst bl)) = bl"
proof (induction bl)
  case Nil show ?case by simp
next
  case (Cons b bl)
  obtain v d where b: "b = (v, d)" by (cases b)
  with Cons.prems have "(v, d) \<in> set al" by simp
  with Cons.prems(1) have "map_of al v = Some d" by (rule map_of_is_SomeI)
  then have head: "(case map_of al v of None \<Rightarrow> [] | Some d \<Rightarrow> [(v, d)]) = [(v, d)]"
    by (simp only: option.case)
  from Cons.prems have "set bl \<subseteq> set al" by simp
  with Cons.IH Cons.prems(1)
  have "concat (map (\<lambda>v. case map_of al v of None \<Rightarrow> [] | Some d \<Rightarrow> [(v, d)]) (map fst bl)) = bl"
    by blast
  with head show ?case unfolding b by (simp only: list.map concat.simps fst_conv append_Cons append_Nil)
qed

lemma gnodes_graph_order:
  assumes "distinct (vertices G)" "c \<in> set (connected_components G)"
  shows "gnodes (subgraph G (graph_order G c)) = filter (\<lambda>vd. fst vd \<in> set c) (gnodes G)"
proof -
  from assms(2) obtain c0 where c: "c = filter (\<lambda>v. v \<in> set c0) (vertices G)"
    by (auto simp: connected_components_def)
  let ?bl = "filter (\<lambda>vd. fst vd \<in> set c0) (gnodes G)"
  have m: "map fst ?bl = c" by (simp add: c vertices_def filter_map comp_def)
  have "filter (\<lambda>vd. fst vd \<in> set c) (gnodes G) = ?bl"
    by (rule filter_cong) (auto simp: c vertices_def)
  moreover have "gnodes (subgraph G (graph_order G c)) = ?bl"
    using regather [of "gnodes G" ?bl] assms(1)
    by (simp add: subgraph_def graph_order_def m vertices_def)
  ultimately show ?thesis by simp
qed

lemma graph_order_permutes: "view_permutes graph_order (bipartite H)"
  using component_distinct [OF distinct_vertices_bipartite]
  by (simp add: view_permutes_def graph_order_def)



subsection \<open>Offsets and ranges\<close>

lemma stacking_place [simp]: "stacking f (place f x c) = c"
  by (simp add: stacking_def place_def)

lemma stack_coord_bounds:
  assumes "i < n" "n \<le> h"
  shows "off \<le> stack_coord i off h n" "stack_coord i off h n \<le> off + of_nat h - 1"
proof -
  have a: "(of_nat n :: rat) \<le> of_nat h" using assms(2) by simp
  have "Suc i \<le> n" using assms(1) by simp
  then have "(of_nat (Suc i) :: rat) \<le> of_nat n" by (simp only: of_nat_le_iff)
  then have b: "(of_nat i :: rat) + 1 \<le> of_nat n" by simp
  show "off \<le> stack_coord i off h n" using a by (simp add: stack_coord_def)
  show "stack_coord i off h n \<le> off + of_nat h - 1"
    using a b by (simp add: stack_coord_def field_simps)
qed

lemma running_offset_Suc:
  "k < length gs \<Longrightarrow>
   running_offset spacing gs (Suc k) = running_offset spacing gs k + (of_nat (comp_height (gs ! k)) + spacing)"
  by (simp add: running_offset_def take_Suc_conv_app_nth)

lemma running_offset_mono:
  assumes "0 \<le> spacing" "j \<le> k" "k \<le> length gs"
  shows "running_offset spacing gs j \<le> running_offset spacing gs k"
  using assms(2,3)
proof (induction k)
  case 0 then show ?case by simp
next
  case (Suc k)
  show ?case
  proof (cases "j = Suc k")
    case True then show ?thesis by simp
  next
    case False
    with Suc have "running_offset spacing gs j \<le> running_offset spacing gs k" by simp
    moreover have "running_offset spacing gs k \<le> running_offset spacing gs (Suc k)"
      using Suc.prems(2) assms(1) by (simp add: running_offset_Suc)
    ultimately show ?thesis by simp
  qed
qed

lemma layout_loop_take_offset:
  assumes "layout_loop so spacing width f no (take k gs) st = Inr st_k"
  shows "offset st_k = offset st + running_offset spacing gs k"
  using layout_loop_offset [OF assms] by (simp add: running_offset_def min_def)

lemma component_vertex_placed:
  assumes run: "layout_loop so spacing width f no gs st = Inr st'"
    and dist: "distinct (concat (map comp_vertices gs))"
    and k: "k < length gs"
    and u: "u \<in> set (comp_vertices (gs ! k))"
  shows "\<exists>pu. pos st' u = Some pu
           \<and> offset st + running_offset spacing gs k \<le> stacking f pu
           \<and> stacking f pu \<le> offset st + running_offset spacing gs k + of_nat (comp_height (gs ! k)) - 1"
proof -
  from run k obtain st_k where pre: "layout_loop so spacing width f no (take k gs) st = Inr st_k"
    by (rule layout_loop_split)
  from layout_loop_sorted [OF run k] obtain vs es
    where sub: "sorted_subsets so no (gs ! k) = Inr (vs, es)" by blast
  note off = layout_loop_take_offset [OF pre]
  note facts = sorted_subsets_facts [OF sub]
  from u facts(6) have "u \<in> set vs \<or> u \<in> set es" by blast
  then show ?thesis
  proof
    assume "u \<in> set vs"
    then obtain i where i: "i < length vs" "u = vs ! i" by (auto simp: in_set_conv_nth)
    have n: "length vs \<le> comp_height (gs ! k)" using facts(5) by linarith
    from layout_loop_positions(1) [OF run dist k sub pre i(1)]
      stack_coord_bounds [OF i(1) n, of "offset st_k"]
    show ?thesis by (simp add: i(2) off)
  next
    assume "u \<in> set es"
    then obtain i where i: "i < length es" "u = es ! i" by (auto simp: in_set_conv_nth)
    have n: "length es \<le> comp_height (gs ! k)" using facts(5) by linarith
    from layout_loop_positions(2) [OF run dist k sub pre i(1)]
      stack_coord_bounds [OF i(1) n, of "offset st_k"]
    show ?thesis by (simp add: i(2) off)
  qed
qed

lemma components_stacked_apart:
  assumes run: "layout_loop so spacing width f no gs st = Inr st'"
    and dist: "distinct (concat (map comp_vertices gs))"
    and sp: "0 \<le> spacing"
    and jk: "j < k" "k < length gs"
    and u: "u \<in> set (comp_vertices (gs ! j))" and v: "v \<in> set (comp_vertices (gs ! k))"
  shows "\<exists>pu pv. pos st' u = Some pu \<and> pos st' v = Some pv \<and> stacking f pu < stacking f pv"
proof -
  have j: "j < length gs" using jk by simp
  from component_vertex_placed [OF run dist j u] obtain pu where
    pu: "pos st' u = Some pu"
      "stacking f pu \<le> offset st + running_offset spacing gs j + of_nat (comp_height (gs ! j)) - 1"
    by blast
  from component_vertex_placed [OF run dist jk(2) v] obtain pv where
    pv: "pos st' v = Some pv" "offset st + running_offset spacing gs k \<le> stacking f pv"
    by blast
  have "running_offset spacing gs (Suc j) \<le> running_offset spacing gs k"
    using jk by (intro running_offset_mono [OF sp]) simp_all
  then have "running_offset spacing gs j + of_nat (comp_height (gs ! j)) \<le> running_offset spacing gs k"
    using sp by (simp add: running_offset_Suc [OF j])
  with pu(2) pv(2) have "stacking f pu < stacking f pv" by linarith
  with pu(1) pv(1) show ?thesis by blast
qed

lemma set_component_vertices:
  assumes "view_permutes view (bipartite H)"
    and "k < length (connected_components (bipartite H))"
  shows "set (comp_vertices (component_graphs view H ! k)) = set (connected_components (bipartite H) ! k)"
proof -
  have "connected_components (bipartite H) ! k \<in> set (connected_components (bipartite H))"
    using assms(2) by simp
  from mset_comp_vertices_component [OF assms(1) this] show ?thesis
    by (metis nth_component_graphs [OF assms(2)] set_mset_mset)
qed


lemma unconnected_vertices_apart:
  assumes lay: "layout_two_column so view H spacing width f no = Inr p"
    and vp: "view_permutes view (bipartite H)"
    and sp: "0 \<le> spacing"
    and u: "u \<in> set (nodes H) \<union> set (edge_uids H)"
    and v: "v \<in> set (nodes H) \<union> set (edge_uids H)"
    and unconnected: "(u, v) \<notin> (adjacent (bipartite H))\<^sup>*"
  shows "\<exists>pu pv. p u = Some pu \<and> p v = Some pv \<and> stacking f pu \<noteq> stacking f pv"
proof -
  let ?cc = "connected_components (bipartite H)"
  let ?gs = "component_graphs view H"
  from lay obtain st where
    run: "layout_loop so spacing width f no ?gs init_state = Inr st" and p: "p = pos st"
    by (rule layout_two_column_Inr)
  have V: "set (concat ?cc) = set (nodes H) \<union> set (edge_uids H)"
    by (simp only: set_concat_components vertices_bipartite)
  have pick: "\<exists>j < length ?cc. x \<in> set (?cc ! j)" if "x \<in> set (concat ?cc)" for x
  proof -
    from that obtain c where "c \<in> set ?cc" "x \<in> set c" by auto
    then show ?thesis by (metis in_set_conv_nth)
  qed
  from u V pick obtain j where j: "j < length ?cc" "u \<in> set (?cc ! j)" by blast
  from v V pick obtain k where k: "k < length ?cc" "v \<in> set (?cc ! k)" by blast
  have "j \<noteq> k"
  proof
    assume "j = k"
    with j k have "same_component ?cc u v" unfolding same_component_def by force
    with connected_components_reachability [OF distinct_vertices_bipartite bipartite_closed, of H u v]
      unconnected show False by simp
  qed
  note dist = distinct_component_graphs [OF vp]
  have uj: "u \<in> set (comp_vertices (?gs ! j))" and vk: "v \<in> set (comp_vertices (?gs ! k))"
    using j k by (simp_all add: set_component_vertices [OF vp])
  have len: "j < length ?gs" "k < length ?gs"
    using j k by (simp_all add: length_component_graphs)
  from \<open>j \<noteq> k\<close> consider "j < k" | "k < j" by linarith
  then show ?thesis
  proof cases
    case 1
    from components_stacked_apart [OF run dist sp 1 len(2) uj vk] show ?thesis
      unfolding p by fastforce
  next
    case 2
    from components_stacked_apart [OF run dist sp 2 len(1) vk uj] show ?thesis
      unfolding p by fastforce
  qed
qed


subsection \<open>Flipped orientation\<close>

lemma offset_flipped [simp]: "offset (flipped st) = offset st"
  by (simp add: flipped_def)

lemma pos_flipped [simp]: "pos (flipped st) = transpose_pos (pos st)"
  by (simp add: flipped_def)

lemma flipped_offset_update:
  "flipped (st\<lparr>offset := c\<rparr>) = (flipped st)\<lparr>offset := c\<rparr>"
  by (simp add: flipped_def)

lemma flipped_put:
  "(flipped st)\<lparr>pos := (pos (flipped st))(v \<mapsto> (c, x))\<rparr> = flipped (st\<lparr>pos := (pos st)(v \<mapsto> (x, c))\<rparr>)"
  by (simp add: flipped_def transpose_pos_def fun_eq_iff)

lemma fold_flipped:
  "fold (\<lambda>iv s. s\<lparr>pos := (pos s)(snd iv \<mapsto> (g (fst iv) (offset s), x))\<rparr>) xs (flipped st)
   = flipped (fold (\<lambda>iv s. s\<lparr>pos := (pos s)(snd iv \<mapsto> (x, g (fst iv) (offset s)))\<rparr>) xs st)"
proof (induction xs arbitrary: st)
  case Nil show ?case by simp
next
  case (Cons a xs)
  let ?T = "\<lambda>iv s. s\<lparr>pos := (pos s)(snd iv \<mapsto> (g (fst iv) (offset s), x))\<rparr>"
  let ?F = "\<lambda>iv s. s\<lparr>pos := (pos s)(snd iv \<mapsto> (x, g (fst iv) (offset s)))\<rparr>"
  have "?T a (flipped st) = flipped (?F a st)"
    using flipped_put [of st "snd a" "g (fst a) (offset st)" x] by simp
  then have "fold ?T (a # xs) (flipped st) = fold ?T xs (flipped (?F a st))"
    by (simp only: fold_simps comp_apply)
  also have "\<dots> = flipped (fold ?F xs (?F a st))" by (rule Cons.IH)
  also have "\<dots> = flipped (fold ?F (a # xs) st)" by (simp only: fold_simps comp_apply)
  finally show ?case .
qed

lemma stack_flipped:
  "stack vs x height True (flipped st) = flipped (stack vs x height False st)"
  using fold_flipped [of "\<lambda>i off. stack_coord i off height (length vs)" x "enumerate 0 vs" st]
  by (simp add: stack_def)

lemma layout_component_flipped:
  "layout_component so spacing width True no Gi (flipped st)
   = map_sum id flipped (layout_component so spacing width False no Gi st)"
  by (simp add: layout_component_def Let_def stack_flipped stack_offset flipped_offset_update
      split: sum.splits prod.splits)

lemma layout_loop_flipped:
  "layout_loop so spacing width True no gs (flipped st)
   = map_sum id flipped (layout_loop so spacing width False no gs st)"
proof (induction gs arbitrary: st)
  case Nil show ?case by simp
next
  case (Cons Gi gs)
  show ?case
  proof (cases "layout_component so spacing width False no Gi st")
    case (Inl e)
    then show ?thesis using layout_component_flipped [of so spacing width no Gi st] by simp
  next
    case (Inr st1)
    then have "layout_component so spacing width True no Gi (flipped st) = Inr (flipped st1)"
      using layout_component_flipped [of so spacing width no Gi st] by simp
    then show ?thesis using Inr Cons.IH [of st1] by simp
  qed
qed


subsection \<open>Sort keys and completion\<close>















lemma layout_two_column_fails:
  assumes "Gi \<in> set (component_graphs view H)" "isl (sorted_subsets so no Gi)"
  shows "isl (layout_two_column so view H spacing width f no)"
proof (rule ccontr)
  assume "\<not> isl (layout_two_column so view H spacing width f no)"
  then obtain p where "layout_two_column so view H spacing width f no = Inr p"
    by (cases "layout_two_column so view H spacing width f no") auto
  then obtain st where
    run: "layout_loop so spacing width f no (component_graphs view H) init_state = Inr st"
    by (rule layout_two_column_Inr)
  from assms(1) obtain k where "k < length (component_graphs view H)" "component_graphs view H ! k = Gi"
    by (auto simp: in_set_conv_nth)
  with layout_loop_sorted [OF run this(1)] assms(2) show False by auto
qed



text \<open>The layout depends on the ordering routine through its results on the components only.\<close>

lemma sorted_subsets_cong:
  "so Gi = so' Gi \<Longrightarrow> sorted_subsets so no Gi = sorted_subsets so' no Gi"
  by (simp add: sorted_subsets_def sort_key_of_def split: option.splits)

lemma layout_component_cong:
  "so Gi = so' Gi \<Longrightarrow>
   layout_component so spacing width f no Gi st = layout_component so' spacing width f no Gi st"
  by (simp add: layout_component_def sorted_subsets_cong [of so Gi so'])

lemma layout_loop_cong:
  "\<forall>Gi \<in> set gs. so Gi = so' Gi \<Longrightarrow>
   layout_loop so spacing width f no gs st = layout_loop so' spacing width f no gs st"
proof (induction gs arbitrary: st)
  case Nil show ?case by simp
next
  case (Cons Gi gs)
  then have "layout_component so spacing width f no Gi st
             = layout_component so' spacing width f no Gi st"
    by (intro layout_component_cong) simp
  with Cons show ?case by (simp split: sum.splits)
qed

lemma layout_two_column_cong:
  "\<forall>Gi \<in> set (component_graphs view H). so Gi = so' Gi \<Longrightarrow>
   layout_two_column so view H spacing width f no = layout_two_column so' view H spacing width f no"
  by (simp add: layout_two_column_def layout_loop_cong [of "component_graphs view H" so so'])

text \<open>If the ordering routine raises on a component, the layout raises: there is no special case.\<close>

lemma ordering_raises_layout_raises:
  assumes "Gi \<in> set (component_graphs view H)" "isl (so Gi)"
  shows "isl (layout_two_column so view H spacing width f None)"
proof -
  from assms(2) have "isl (sorted_subsets so None Gi)"
    by (cases "so Gi") (simp_all add: sorted_subsets_def sort_key_of_def)
  with assms(1) show ?thesis by (rule layout_two_column_fails)
qed

lemma layout_two_column_nodeorder_ignores_ordering:
  "layout_two_column so view H spacing width f (Some no) = layout_two_column so' view H spacing width f (Some no)"
proof -
  have c: "layout_component so spacing width f (Some no) Gi st
           = layout_component so' spacing width f (Some no) Gi st" for Gi st
    by (simp add: layout_component_def sorted_subsets_def sort_key_of_def)
  have "layout_loop so spacing width f (Some no) gs st
        = layout_loop so' spacing width f (Some no) gs st" for gs st
    by (induction gs arbitrary: st) (simp_all add: c split: sum.splits)
  then show ?thesis by (simp add: layout_two_column_def)
qed


subsection \<open>The renderer\<close>

lemma collect_map:
  "\<forall>x \<in> set xs. f x = Inr (g x) \<Longrightarrow> collect f xs = Inr (map g xs)"
  by (induction xs) auto

lemma collect_Inr: "collect f xs = Inr ys \<Longrightarrow> map f xs = map Inr ys"
  by (induction xs arbitrary: ys) (auto split: sum.splits)

lemma segment_Some:
  "pos_map (fst ne) = Some a \<Longrightarrow> pos_map (snd ne) = Some b \<Longrightarrow> segment pos_map ne = Inr (a, b)"
  by (simp add: segment_def lookup_def)

lemma keys_expand_kwargs: "map fst (expand_kwargs ps kwargs) = map fst kwargs"
  by (simp add: expand_kwargs_def comp_def)

lemma pairs_membership:
  "set (pairs H) = {(node, e). \<exists>members. (e, members) \<in> set (edges H) \<and> node \<in> set members}"
  by (auto simp: pairs_def)

lemma distinct_pairs:
  assumes "distinct (map fst (edges H))" "\<forall>edge \<in> set (edges H). distinct (snd edge)"
  shows "distinct (pairs H)"
proof -
  have "distinct (concat (map (\<lambda>edge. map (\<lambda>node. (node, fst edge)) (snd edge)) es))"
    if "distinct (map fst es)" "\<forall>edge \<in> set es. distinct (snd edge)" for es :: "(uid \<times> uid list) list"
    using that by (induction es) (auto simp: distinct_map inj_on_def)
  with assms show ?thesis by (simp add: pairs_def)
qed

lemma draw_hyper_edges_segments:
  assumes cover: "\<forall>ne \<in> set (pairs H). fst ne \<in> dom pos_map \<and> snd ne \<in> dom pos_map"
      "set (nodes H) \<subseteq> dom pos_map"
    and kw: "''color'' \<notin> set (map fst kwargs)" "''zorder'' \<notin> set (map fst kwargs)"
    and nc: "\<forall>d. nodecolor = PDict d \<longrightarrow> set (nodes H) \<subseteq> dom (map_of d)"
  shows "\<exists>segs patches nc.
           draw_hyper_edges H pos_map ax edgecolor nodecolor nodesize kwargs
             = (Inr (LineCollection segs edgecolor 0 (expand_kwargs (pairs H) kwargs)),
                ax @ [LineCollection segs edgecolor 0 (expand_kwargs (pairs H) kwargs),
                      PatchCollection patches nc])
         \<and> map (\<lambda>s. (Some (fst s), Some (snd s))) segs
             = map (\<lambda>ne. (pos_map (fst ne), pos_map (snd ne))) (pairs H)"
proof -
  let ?segs = "map (\<lambda>ne. (the (pos_map (fst ne)), the (pos_map (snd ne)))) (pairs H)"
  let ?patches = "map (\<lambda>node. (the (pos_map node), nodesize)) (nodes H)"
  have "\<forall>ne \<in> set (pairs H). segment pos_map ne = Inr (the (pos_map (fst ne)), the (pos_map (snd ne)))"
    using cover(1) by (auto intro!: segment_Some)
  then have segs: "collect (segment pos_map) (pairs H) = Inr ?segs" by (rule collect_map)
  have "\<forall>node \<in> set (nodes H).
          map_sum id (\<lambda>c. (c, nodesize)) (lookup pos_map node) = Inr (the (pos_map node), nodesize)"
    using cover(2) by (auto simp: lookup_def)
  then have patches:
    "collect (\<lambda>node. map_sum id (\<lambda>c. (c, nodesize)) (lookup pos_map node)) (nodes H) = Inr ?patches"
    by (rule collect_map)
  have "\<exists>c. node_colours nodecolor (nodes H) = Inr c"
  proof (cases nodecolor)
    case (PDict d)
    with nc have "\<forall>node \<in> set (nodes H). lookup (map_of d) node = Inr (the (map_of d node))"
      by (auto simp: lookup_def)
    from collect_map [OF this] PDict show ?thesis by (simp add: node_colours_def)
  qed (simp_all add: node_colours_def)
  then obtain c where c: "node_colours nodecolor (nodes H) = Inr c" by blast
  have "draw_hyper_edges H pos_map ax edgecolor nodecolor nodesize kwargs
          = (Inr (LineCollection ?segs edgecolor 0 (expand_kwargs (pairs H) kwargs)),
             ax @ [LineCollection ?segs edgecolor 0 (expand_kwargs (pairs H) kwargs),
                   PatchCollection ?patches c])"
    using kw by (simp add: draw_hyper_edges_def Let_def segs patches c keys_expand_kwargs)
  moreover have "map (\<lambda>s. (Some (fst s), Some (snd s))) ?segs
             = map (\<lambda>ne. (pos_map (fst ne), pos_map (snd ne))) (pairs H)"
    using cover(1) by auto
  ultimately show ?thesis by blast
qed

lemma draw_hyper_edges_repeated_keyword:
  assumes "''color'' \<in> set (map fst kwargs) \<or> ''zorder'' \<in> set (map fst kwargs)"
  shows "\<exists>e. draw_hyper_edges H pos_map ax edgecolor nodecolor nodesize kwargs = (Inl e, ax)"
  using assms
  by (cases "collect (segment pos_map) (pairs H)")
    (auto simp: draw_hyper_edges_def Let_def keys_expand_kwargs)

lemma setitem_frame:
  assumes "setitem r key v w = (r', w')"
  shows "H_obj w' = H_obj w" "nodeorder_obj w' = nodeorder_obj w" "ax_obj w' = ax_obj w"
    "r \<noteq> CallerDict \<Longrightarrow> w' = w"
  using assms by (auto simp: setitem_def split: dict_ref.splits)

lemma edge_kwargs_or_fresh_Caller:
  "edge_kwargs_or_fresh w = CallerDict \<longleftrightarrow> (\<exists>d. edge_kwargs_obj w = Some d \<and> d \<noteq> [])"
  by (auto simp: edge_kwargs_or_fresh_def split: option.splits)

lemma draw_with_frame:
  assumes "draw_with lib with_node_labels with_edge_labels with_node_counts with_edge_counts
             with_color flip_orientation edgecolor nodecolor nodesize pos_map w = (r, w')"
  shows "H_obj w' = H_obj w" "nodeorder_obj w' = nodeorder_obj w"
    "\<not> with_color \<or> edge_kwargs_obj w = None \<or> edge_kwargs_obj w = Some []
       \<Longrightarrow> edge_kwargs_obj w' = edge_kwargs_obj w"
proof -
  define ek where "ek = edge_kwargs_or_fresh w"
  define ew where "ew = (if with_color then setitem ek ''color'' (PDict (colour_cycle (H_obj w))) w
              else (ek, w))"
  obtain ek1 w1 where ew1: "ew = (ek1, w1)" by (cases ew)
  have w1: "H_obj w1 = H_obj w" "nodeorder_obj w1 = nodeorder_obj w"
    using ew1 setitem_frame(1,2) [of ek "''color''" "PDict (colour_cycle (H_obj w))" w ek1 w1]
    by (auto simp: ew_def split: if_splits)
  have w1': "edge_kwargs_obj w1 = edge_kwargs_obj w"
    if "\<not> with_color \<or> edge_kwargs_obj w = None \<or> edge_kwargs_obj w = Some []"
  proof (cases with_color)
    case False
    then show ?thesis using ew1 by (simp add: ew_def)
  next
    case True
    with that have "ek \<noteq> CallerDict" by (auto simp: ek_def edge_kwargs_or_fresh_Caller)
    with True ew1 setitem_frame(4) [of ek "''color''" "PDict (colour_cycle (H_obj w))" w ek1 w1]
    show ?thesis by (simp add: ew_def)
  qed
  have "\<exists>ax'. w' = w1\<lparr>ax_obj := ax'\<rparr> \<or> w' = w1"
    using assms unfolding draw_with_def Let_def ek_def [symmetric] ew_def [symmetric] ew1
    by (auto split: if_splits prod.splits sum.splits)
  then show "H_obj w' = H_obj w" "nodeorder_obj w' = nodeorder_obj w"
    using w1 by auto
  show "edge_kwargs_obj w' = edge_kwargs_obj w"
    if "\<not> with_color \<or> edge_kwargs_obj w = None \<or> edge_kwargs_obj w = Some []"
    using w1' [OF that] \<open>\<exists>ax'. w' = w1\<lparr>ax_obj := ax'\<rparr> \<or> w' = w1\<close> by auto
qed

lemma draw_with_color_raises:
  "\<exists>e w'. draw lib with_node_labels with_edge_labels with_node_counts with_edge_counts
             True column_spacing flip_orientation edgecolor nodecolor nodesize w = (Inl e, w')"
proof (cases "draw_layout lib column_spacing flip_orientation w")
  case (Inl e)
  then show ?thesis by (simp add: draw_def)
next
  case (Inr pos_map)
  define ek where "ek = edge_kwargs_or_fresh w"
  obtain ek1 w1 where ew1: "setitem ek ''color'' (PDict (colour_cycle (H_obj w))) w = (ek1, w1)"
    by (cases "setitem ek ''color'' (PDict (colour_cycle (H_obj w))) w")
  have key: "''color'' \<in> set (map fst (AList.update ''color'' v d))" for v :: pyval and d
    using dom_update [of "''color''" v d] by simp
  have "''color'' \<in> set (map fst (deref w1 ek1))"
    using ew1 key
    by (auto simp: setitem_def deref_def ek_def edge_kwargs_or_fresh_def
        split: dict_ref.splits option.splits if_splits)
  from draw_hyper_edges_repeated_keyword [OF disjI1, OF this]
  obtain e where "draw_hyper_edges (H_obj w) pos_map (ax_obj w1) edgecolor nodecolor nodesize
     (deref w1 ek1) = (Inl e, ax_obj w1)" by blast
  then show ?thesis
    unfolding draw_def Inr draw_with_def Let_def ek_def [symmetric]
    by (simp add: ew1)
qed

lemma running_offset_no_spacing:
  "running_offset 0 gs k = of_nat (sum_list (map comp_height (take k gs)))"
proof -
  have "sum_list (map (\<lambda>Gi. rat_of_nat (comp_height Gi) + 0) xs)
        = of_nat (sum_list (map comp_height xs))" for xs
    by (induction xs) simp_all
  then show ?thesis by (simp add: running_offset_def)
qed


section \<open>The claims\<close>

text \<open>
  In the theorems \<open>view_permutes view (bipartite H)\<close> says what every node view does: the
  view of a component's subgraph yields the vertices of the component, each once. The order
  in which it yields them is left open, so the theorems hold for the graph's node order and
  for any hash order alike.
\<close>

text \<open>
  C1. The position map that \<^verbatim>\<open>layout_two_column\<close> returns has as its keys exactly the
  node identifiers and the hyperedge identifiers of the hypergraph: none is missing and
  there is no other key. A map holds one entry per key.
\<close>

theorem layout_two_column_keys:
  assumes "layout_two_column so view H spacing width flip_orientation nodeorder = Inr p"
    and "view_permutes view (bipartite H)"
  shows "dom p = set (nodes H) \<union> set (edge_uids H)"
proof -
  from assms(1) obtain st where
    "layout_loop so spacing width flip_orientation nodeorder (component_graphs view H) init_state = Inr st"
    "p = pos st"
    by (rule layout_two_column_Inr)
  with layout_loop_dom [OF this(1)] set_component_graphs [OF assms(2)] show ?thesis
    by (simp add: init_state_def)
qed

theorem layout_two_column_keys_witness:
  "\<exists>p. layout_two_column identity_ordering graph_order two_singletons (1/2) 3 False None = Inr p
       \<and> dom p = {IntId 1, IntId 2, StrId ''e1'', StrId ''e2''}"
proof -
  have "\<not> isl (layout_two_column identity_ordering graph_order two_singletons (1/2) 3 False None)"
    by code_simp
  then obtain p where
    run: "layout_two_column identity_ordering graph_order two_singletons (1/2) 3 False None = Inr p"
    by (cases "layout_two_column identity_ordering graph_order two_singletons (1/2) 3 False None") auto
  from layout_two_column_keys [OF run graph_order_permutes]
  have "dom p = {IntId 1, IntId 2, StrId ''e1'', StrId ''e2''}"
    by (auto simp: two_singletons_def edge_uids_def)
  with run show ?thesis by blast
qed

text \<open>
  C2. Within the component of index \<open>k\<close> the sorted node subset is placed in column 0 and
  the sorted hyperedge subset in column \<^verbatim>\<open>width\<close>. The item at sorted index \<open>i\<close> gets
  the stacking coordinate \<open>i + offset + (height - size) / 2\<close>, where \<open>offset\<close> is the
  running offset when the loop reaches the component (the sum of \<open>height + spacing\<close> over the
  earlier components), \<open>height\<close> is the larger of the two subset sizes and \<open>size\<close> the
  size of the item's subset. After the component the running offset has grown by
  \<open>height + spacing\<close>. At the hypergraph of two disjoint singleton hyperedges the second
  component starts at the height of the first plus the spacing.
\<close>

theorem component_positions:
  assumes "layout_two_column so view H spacing width flip_orientation nodeorder = Inr p"
    and "k < length (component_graphs view H)"
    and "sorted_subsets so nodeorder (component_graphs view H ! k) = Inr (ci_vertices, ci_edges)"
    and "height = max (length ci_vertices) (length ci_edges)"
    and view: "view_permutes view (bipartite H)"
  shows "\<exists>st_k st_k1.
           layout_loop so spacing width flip_orientation nodeorder
             (take k (component_graphs view H)) init_state = Inr st_k
         \<and> layout_loop so spacing width flip_orientation nodeorder
             (take (Suc k) (component_graphs view H)) init_state = Inr st_k1
         \<and> offset st_k
             = sum_list (map (\<lambda>Gi. of_nat (comp_height Gi) + spacing) (take k (component_graphs view H)))
         \<and> offset st_k1 = offset st_k + (of_nat height + spacing)
         \<and> height = comp_height (component_graphs view H ! k)
         \<and> (\<forall>i < length ci_vertices.
               p (ci_vertices ! i)
               = Some (place flip_orientation 0
                   (of_nat i + offset st_k + (of_nat height - of_nat (length ci_vertices)) / 2)))
         \<and> (\<forall>i < length ci_edges.
               p (ci_edges ! i)
               = Some (place flip_orientation width
                   (of_nat i + offset st_k + (of_nat height - of_nat (length ci_edges)) / 2)))"
proof -
  let ?gs = "component_graphs view H"
  from assms(1) obtain st where
    run: "layout_loop so spacing width flip_orientation nodeorder ?gs init_state = Inr st"
    and p: "p = pos st"
    by (rule layout_two_column_Inr)
  from run assms(2) obtain st_k st_k1 where
    pre: "layout_loop so spacing width flip_orientation nodeorder (take k ?gs) init_state = Inr st_k"
    and c: "layout_component so spacing width flip_orientation nodeorder (?gs ! k) st_k = Inr st_k1"
    and nxt: "layout_loop so spacing width flip_orientation nodeorder (take (Suc k) ?gs) init_state
              = Inr st_k1"
    by (rule layout_loop_split)
  have h: "height = comp_height (?gs ! k)"
    using sorted_subsets_facts(5) [OF assms(3)] assms(4) by simp
  have off: "offset st_k = sum_list (map (\<lambda>Gi. of_nat (comp_height Gi) + spacing) (take k ?gs))"
    using layout_loop_take_offset [OF pre] by (simp add: running_offset_def init_state_def)
  have step: "offset st_k1 = offset st_k + (of_nat height + spacing)"
    using layout_component_offset [OF c] h by simp
  note dist = distinct_component_graphs [OF view]
  have nodes: "\<forall>i < length ci_vertices. p (ci_vertices ! i)
               = Some (place flip_orientation 0
                   (of_nat i + offset st_k + (of_nat height - of_nat (length ci_vertices)) / 2))"
    using layout_loop_positions(1) [OF run dist assms(2,3) pre]
    by (simp add: p h stack_coord_def)
  have edges: "\<forall>i < length ci_edges. p (ci_edges ! i)
               = Some (place flip_orientation width
                   (of_nat i + offset st_k + (of_nat height - of_nat (length ci_edges)) / 2))"
    using layout_loop_positions(2) [OF run dist assms(2,3) pre]
    by (simp add: p h stack_coord_def)
  from pre nxt off step h nodes edges show ?thesis by blast
qed

theorem component_positions_witness:
  "\<exists>p. layout_two_column identity_ordering graph_order two_singletons (1/2) 3 False None = Inr p
       \<and> p (IntId 2) = Some (0, 1 + 1/2) \<and> p (StrId ''e2'') = Some (3, 1 + 1/2)"
proof -
  have "\<not> isl (layout_two_column identity_ordering graph_order two_singletons (1/2) 3 False None)"
    by code_simp
  then obtain p where
    run: "layout_two_column identity_ordering graph_order two_singletons (1/2) 3 False None = Inr p"
    by (cases "layout_two_column identity_ordering graph_order two_singletons (1/2) 3 False None") auto
  have k: "1 < length (component_graphs graph_order two_singletons)" by code_simp
  have sub: "sorted_subsets identity_ordering None (component_graphs graph_order two_singletons ! 1)
             = Inr ([IntId 2], [StrId ''e2''])" by code_simp
  have h: "(1::nat) = max (length [IntId 2]) (length [StrId ''e2''])" by simp
  have first: "sum_list (map (\<lambda>Gi. of_nat (comp_height Gi) + 1/2) (take 1 (component_graphs graph_order two_singletons)))
               = (1 + 1/2 :: rat)" by code_simp
  from component_positions [OF run k sub h graph_order_permutes] first run show ?thesis
    by (auto simp: place_def)
qed

text \<open>
  C3. With a non-negative spacing, two vertices that lie in different connected components
  never get the same coordinate on the stacking axis: the vertex of the earlier component
  lies strictly before the vertex of the later one. By lemma
  \<open>connected_components_reachability\<close> the components are the classes of mutual reachability
  in the bipartite graph; lemma \<open>unconnected_vertices_apart\<close> is the same result for two
  vertices that no path connects.
\<close>

theorem components_never_overlap:
  assumes "layout_two_column so view H spacing width flip_orientation nodeorder = Inr p"
    and "0 \<le> spacing"
    and "j < length (connected_components (bipartite H))"
    and "k < length (connected_components (bipartite H))"
    and "j \<noteq> k"
    and "u \<in> set (connected_components (bipartite H) ! j)"
    and "v \<in> set (connected_components (bipartite H) ! k)"
    and view: "view_permutes view (bipartite H)"
  shows "\<exists>pu pv. p u = Some pu \<and> p v = Some pv
           \<and> stacking flip_orientation pu \<noteq> stacking flip_orientation pv
           \<and> (j < k \<longrightarrow> stacking flip_orientation pu < stacking flip_orientation pv)"
proof -
  from assms(1) obtain st where
    run: "layout_loop so spacing width flip_orientation nodeorder (component_graphs view H) init_state = Inr st"
    and p: "p = pos st"
    by (rule layout_two_column_Inr)
  note dist = distinct_component_graphs [OF view]
  have u: "u \<in> set (comp_vertices (component_graphs view H ! j))"
    and v: "v \<in> set (comp_vertices (component_graphs view H ! k))"
    using assms(3,4,6,7) by (simp_all add: set_component_vertices [OF view])
  have len: "j < length (component_graphs view H)" "k < length (component_graphs view H)"
    using assms(3,4) by (simp_all add: length_component_graphs)
  consider "j < k" | "k < j" using assms(5) by linarith
  then show ?thesis
  proof cases
    case 1
    from components_stacked_apart [OF run dist assms(2) 1 len(2) u v] show ?thesis
      unfolding p by fastforce
  next
    case 2
    from components_stacked_apart [OF run dist assms(2) 2 len(1) v u] show ?thesis
      unfolding p using 2 by fastforce
  qed
qed

theorem components_never_overlap_witness:
  "\<exists>p pu pv. layout_two_column identity_ordering graph_order two_singletons (1/2) 3 False None = Inr p
       \<and> p (StrId ''e1'') = Some pu \<and> p (IntId 2) = Some pv \<and> snd pu \<noteq> snd pv \<and> snd pu < snd pv"
proof -
  have "\<not> isl (layout_two_column identity_ordering graph_order two_singletons (1/2) 3 False None)"
    by code_simp
  then obtain p where
    run: "layout_two_column identity_ordering graph_order two_singletons (1/2) 3 False None = Inr p"
    by (cases "layout_two_column identity_ordering graph_order two_singletons (1/2) 3 False None") auto
  have sp: "(0::rat) \<le> 1/2" by simp
  have j: "0 < length (connected_components (bipartite two_singletons))" by code_simp
  have k: "1 < length (connected_components (bipartite two_singletons))" by code_simp
  have jk: "(0::nat) \<noteq> 1" by simp
  have u: "StrId ''e1'' \<in> set (connected_components (bipartite two_singletons) ! 0)" by code_simp
  have v: "IntId 2 \<in> set (connected_components (bipartite two_singletons) ! 1)" by code_simp
  from components_never_overlap [OF run sp j k jk u v graph_order_permutes] run show ?thesis
    by (simp add: stacking_def)
qed

text \<open>
  C4. \<^verbatim>\<open>draw_hyper_edges\<close> is to produce one segment per (node, hyperedge) membership
  pair, with the positions of the node and of the hyperedge as its end points. Lemma
  \<open>draw_hyper_edges_segments\<close> shows this for the calls without a \<^verbatim>\<open>color\<close> or
  \<^verbatim>\<open>zorder\<close> keyword argument. Called with a \<^verbatim>\<open>color\<close> keyword argument, as
  \<^verbatim>\<open>draw\<close> calls it whenever \<^verbatim>\<open>with_color\<close> is set, the \<^verbatim>\<open>LineCollection\<close> call
  receives \<^verbatim>\<open>color\<close> twice and raises \<^verbatim>\<open>TypeError\<close>: no segment is produced.
\<close>

theorem draw_hyper_edges_colour_keyword_raises:
  "draw_hyper_edges one_edge one_edge_pos [] PNone PNone (1 / 10)
     [(''color'', PDict [(StrId ''e1'', Tab10 0)])] = (Inl TypeError, [])"
  by code_simp

text \<open>
  C5. The position map computed with \<^verbatim>\<open>flip_orientation=True\<close> is the transpose of the one
  computed with \<^verbatim>\<open>flip_orientation=False\<close> and the same remaining arguments: the two runs
  fail alike, or both return and a vertex at \<open>(a, b)\<close> in the run without the flag is at
  \<open>(b, a)\<close> in the run with it.
\<close>

theorem flip_orientation_transposes:
  "layout_two_column so view H spacing width True nodeorder
   = map_sum id transpose_pos (layout_two_column so view H spacing width False nodeorder)"
proof -
  have init: "flipped \<lparr>offset = 0, pos = Map.empty\<rparr> = \<lparr>offset = 0, pos = Map.empty\<rparr>"
    by (simp add: flipped_def transpose_pos_def)
  show ?thesis
    using layout_loop_flipped [of so spacing width nodeorder "component_graphs view H"
        "\<lparr>offset = 0, pos = Map.empty\<rparr>"]
    unfolding init
    by (cases "layout_loop so spacing width False nodeorder (component_graphs view H)
                 \<lparr>offset = 0, pos = Map.empty\<rparr>")
      (simp_all add: layout_two_column_def)
qed

theorem flip_orientation_transposes_witness:
  "\<exists>p. layout_two_column identity_ordering graph_order one_edge 0 1 False None = Inr p
       \<and> layout_two_column identity_ordering graph_order one_edge 0 1 True None = Inr (transpose_pos p)
       \<and> p (StrId ''e1'') = Some (1, 1 / 2)
       \<and> transpose_pos p (StrId ''e1'') = Some (1 / 2, 1)"
proof -
  have "case layout_two_column identity_ordering graph_order one_edge 0 1 False None of
          Inl e \<Rightarrow> False | Inr p \<Rightarrow> p (StrId ''e1'') = Some (1, 1 / 2)"
    by code_simp
  then obtain p where
    run: "layout_two_column identity_ordering graph_order one_edge 0 1 False None = Inr p"
    and e1: "p (StrId ''e1'') = Some (1, 1 / 2)"
    by (cases "layout_two_column identity_ordering graph_order one_edge 0 1 False None") auto
  from flip_orientation_transposes [of identity_ordering graph_order one_edge 0 1 None] run
  have flip: "layout_two_column identity_ordering graph_order one_edge 0 1 True None = Inr (transpose_pos p)"
    by simp
  have "transpose_pos p (StrId ''e1'') = Some (1 / 2, 1)"
    using e1 by (simp add: transpose_pos_def)
  with run flip e1 show ?thesis by blast
qed






text \<open>
  C9, amended. \<^verbatim>\<open>draw\<close> leaves the hypergraph and the \<^verbatim>\<open>nodeorder\<close> mapping of its
  caller unchanged in every run, a failing one included, and leaves the caller's
  \<^verbatim>\<open>edge_kwargs\<close> unchanged when \<^verbatim>\<open>with_color\<close> is off or \<^verbatim>\<open>edge_kwargs\<close> is
  \<^verbatim>\<open>None\<close> or empty.
\<close>

theorem draw_frame:
  assumes "draw lib with_node_labels with_edge_labels with_node_counts with_edge_counts
             with_color column_spacing flip_orientation edgecolor nodecolor nodesize w = (r, w')"
  shows "H_obj w' = H_obj w \<and> nodeorder_obj w' = nodeorder_obj w
       \<and> (\<not> with_color \<or> edge_kwargs_obj w = None \<or> edge_kwargs_obj w = Some []
            \<longrightarrow> edge_kwargs_obj w' = edge_kwargs_obj w)"
proof (cases "draw_layout lib column_spacing flip_orientation w")
  case (Inl e)
  with assms show ?thesis by (simp add: draw_def)
next
  case (Inr pos_map)
  with assms have "draw_with lib with_node_labels with_edge_labels with_node_counts with_edge_counts
             with_color flip_orientation edgecolor nodecolor nodesize pos_map w = (r, w')"
    by (simp add: draw_def)
  from draw_with_frame [OF this] show ?thesis by blast
qed

theorem draw_frame_witness:
  "\<exists>r w'. draw plain_library True True False False False 1 False PNone PNone (1 / 10) styled_world
            = (r, w')
         \<and> H_obj w' = one_edge \<and> nodeorder_obj w' = None
         \<and> edge_kwargs_obj w' = Some [(''linewidth'', PNum 2)]"
proof -
  obtain r w' where
    run: "draw plain_library True True False False False 1 False PNone PNone (1 / 10) styled_world
            = (r, w')"
    by (cases "draw plain_library True True False False False 1 False PNone PNone (1 / 10) styled_world")
  from draw_frame [OF run] run show ?thesis by (simp add: styled_world_def)
qed

text \<open>
  C9 as stated fails: with \<^verbatim>\<open>with_color\<close> set and a non-empty \<^verbatim>\<open>edge_kwargs\<close>, line 257
  writes the \<^verbatim>\<open>color\<close> entry into the caller's dictionary.
\<close>

theorem draw_mutates_edge_kwargs_counterexample:
  "edge_kwargs_obj
     (snd (draw plain_library True True False False True 1 False PNone PNone (1 / 10) styled_world))
   = Some [(''linewidth'', PNum 2), (''color'', PDict [(StrId ''e1'', Tab10 0)])]
   \<and> edge_kwargs_obj styled_world = Some [(''linewidth'', PNum 2)]"
  by code_simp

text \<open>
  C10. \<^verbatim>\<open>draw\<close> calls the layout with spacing 0 and with \<^verbatim>\<open>column_spacing\<close> as the
  width, and continues with the position map of that call. In it the offset of the
  component of index \<open>k\<close> is the sum of the heights of the earlier components, with no
  gap; \<^verbatim>\<open>column_spacing\<close> is the column of the hyperedges and enters no stacking
  coordinate.
\<close>

theorem draw_stacks_without_gap:
  assumes "draw_layout lib column_spacing flip_orientation w = Inr p"
    and "k < length (component_graphs (node_view lib) (H_obj w))"
    and "sorted_subsets (spectral_ordering lib) (nodeorder_obj w)
           (component_graphs (node_view lib) (H_obj w) ! k)
         = Inr (ci_vertices, ci_edges)"
    and view: "view_permutes (node_view lib) (bipartite (H_obj w))"
  shows "draw lib with_node_labels with_edge_labels with_node_counts with_edge_counts with_color
           column_spacing flip_orientation edgecolor nodecolor nodesize w
         = draw_with lib with_node_labels with_edge_labels with_node_counts with_edge_counts
             with_color flip_orientation edgecolor nodecolor nodesize p w
       \<and> (\<forall>i < length ci_vertices.
             p (ci_vertices ! i)
             = Some (place flip_orientation 0
                 (of_nat i + of_nat (sum_list (map comp_height (take k (component_graphs (node_view lib) (H_obj w)))))
                  + (of_nat (comp_height (component_graphs (node_view lib) (H_obj w) ! k))
                     - of_nat (length ci_vertices)) / 2)))
       \<and> (\<forall>i < length ci_edges.
             p (ci_edges ! i)
             = Some (place flip_orientation column_spacing
                 (of_nat i + of_nat (sum_list (map comp_height (take k (component_graphs (node_view lib) (H_obj w)))))
                  + (of_nat (comp_height (component_graphs (node_view lib) (H_obj w) ! k))
                     - of_nat (length ci_edges)) / 2)))"
proof -
  let ?gs = "component_graphs (node_view lib) (H_obj w)"
  let ?so = "spectral_ordering lib"
  let ?no = "nodeorder_obj w"
  have lay: "layout_two_column ?so (node_view lib) (H_obj w) 0 column_spacing flip_orientation ?no = Inr p"
    using assms(1) by (simp add: draw_layout_def)
  then obtain st where
    run: "layout_loop ?so 0 column_spacing flip_orientation ?no ?gs init_state = Inr st"
    and p: "p = pos st"
    by (rule layout_two_column_Inr)
  from run assms(2) obtain st_k where
    pre: "layout_loop ?so 0 column_spacing flip_orientation ?no (take k ?gs) init_state = Inr st_k"
    by (rule layout_loop_split)
  have off: "offset st_k = of_nat (sum_list (map comp_height (take k ?gs)))"
    using layout_loop_take_offset [OF pre]
    by (simp add: running_offset_no_spacing init_state_def)
  note dist = distinct_component_graphs [OF view]
  have "\<forall>i < length ci_vertices.
             p (ci_vertices ! i)
             = Some (place flip_orientation 0
                 (of_nat i + of_nat (sum_list (map comp_height (take k ?gs)))
                  + (of_nat (comp_height (?gs ! k)) - of_nat (length ci_vertices)) / 2))"
    using layout_loop_positions(1) [OF run dist assms(2,3) pre]
    by (simp add: p off stack_coord_def)
  moreover have "\<forall>i < length ci_edges.
             p (ci_edges ! i)
             = Some (place flip_orientation column_spacing
                 (of_nat i + of_nat (sum_list (map comp_height (take k ?gs)))
                  + (of_nat (comp_height (?gs ! k)) - of_nat (length ci_edges)) / 2))"
    using layout_loop_positions(2) [OF run dist assms(2,3) pre]
    by (simp add: p off stack_coord_def)
  moreover have "draw lib with_node_labels with_edge_labels with_node_counts with_edge_counts with_color
           column_spacing flip_orientation edgecolor nodecolor nodesize w
         = draw_with lib with_node_labels with_edge_labels with_node_counts with_edge_counts
             with_color flip_orientation edgecolor nodecolor nodesize p w"
    by (simp add: draw_def assms(1))
  ultimately show ?thesis by blast
qed

theorem draw_stacks_without_gap_witness:
  "\<exists>p. draw_layout plain_library 3 False two_singletons_world = Inr p
       \<and> p (IntId 2) = Some (0, 1) \<and> p (StrId ''e2'') = Some (3, 1)
       \<and> draw plain_library True True False False False 3 False PNone PNone (1 / 10)
           two_singletons_world
         = draw_with plain_library True True False False False False PNone PNone (1 / 10) p
             two_singletons_world"
proof -
  have "\<not> isl (draw_layout plain_library 3 False two_singletons_world)" by code_simp
  then obtain p where lay: "draw_layout plain_library 3 False two_singletons_world = Inr p"
    by (cases "draw_layout plain_library 3 False two_singletons_world") auto
  have k: "1 < length (component_graphs (node_view plain_library) (H_obj two_singletons_world))"
    by code_simp
  have view: "view_permutes (node_view plain_library) (bipartite (H_obj two_singletons_world))"
    using graph_order_permutes [of "H_obj two_singletons_world"] by (simp add: plain_library_def)
  have sub: "sorted_subsets (spectral_ordering plain_library) (nodeorder_obj two_singletons_world)
               (component_graphs (node_view plain_library) (H_obj two_singletons_world) ! 1)
             = Inr ([IntId 2], [StrId ''e2''])" by code_simp
  have h: "sum_list (map comp_height
               (take (Suc 0) (component_graphs (node_view plain_library) (H_obj two_singletons_world))))
           = 1"
    "comp_height (component_graphs (node_view plain_library) (H_obj two_singletons_world) ! Suc 0) = 1"
    by code_simp+
  from draw_stacks_without_gap [OF lay k sub view,
      of True True False False False PNone PNone "1 / 10"]
    lay show ?thesis
    by (auto simp: place_def h)
qed


end
